theory Spec2Isabelle
  imports Main "HOL-Library.Word" "HOL-Library.Multiset"
begin

unbundle bit_operations_syntax

section \<open>JavaScript values\<close>

text \<open>
  A JavaScript string is a sequence of UTF-16 code units; \<open>length\<close> counts code units,
  as \<open>String.prototype.length\<close> does. A \<open>Buffer\<close> is a list of bytes.
\<close>

type_synonym jsstring = "16 word list"
type_synonym byte = "8 word"

definition js :: "string \<Rightarrow> jsstring" where
  "js s = map of_char s"

text \<open>
  A thrown value is an \<open>Error\<close> object with its message, or some other value
  (the handlers of the scanner test \<open>error instanceof Error\<close>).
\<close>

datatype js_error = Error (message: jsstring) | NonError

text \<open>The decimal text of a number, as a template literal inserts it.\<close>

function number_to_string :: "nat \<Rightarrow> jsstring" where
  "number_to_string n =
     (if n < 10 then [of_nat (48 + n)]
      else number_to_string (n div 10) @ [of_nat (48 + n mod 10)])"
  by pat_completeness auto
termination
  by (relation "measure id") auto

text \<open>
  \<open>Array.prototype.slice(start, end)\<close> and \<open>Buffer.prototype.subarray(start, end)\<close>:
  a negative index counts from the end, both are clamped to the length, and an end
  before the start gives the empty sequence.
\<close>

definition slice :: "int \<Rightarrow> int \<Rightarrow> 'a list \<Rightarrow> 'a list" where
  "slice s e xs =
     (let n = int (length xs);
          from = (if s < 0 then max (n + s) 0 else min s n);
          to = (if e < 0 then max (n + e) 0 else min e n)
      in take (nat (to - from)) (drop (nat from) xs))"

text \<open>
  An HTTP exchange: \<open>fetch\<close> rejects, or resolves to a response with its status and the
  outcomes of reading its body with \<open>response.text()\<close> and with \<open>response.json()\<close>,
  each of which may reject.
\<close>

datatype 'a response =
  Response (ok: bool) (status: nat) (body_text: "js_error + jsstring") (body_json: "js_error + 'a")

datatype 'a fetched = Rejected js_error | Resolved "'a response"

text \<open>A string is truthy when it is set and not empty.\<close>

definition truthy :: "jsstring option \<Rightarrow> bool" where
  "truthy v = (case v of None \<Rightarrow> False | Some s \<Rightarrow> s \<noteq> [])"

section \<open>The credential vault: encodings\<close>

text \<open>
  \<open>Buffer.toString('hex')\<close> and \<open>Buffer.from(s, 'hex')\<close>: two lower-case digits for
  a byte; decoding accepts both cases and stops at the first pair that is not two hex
  digits (and drops a last single character). The decoder reads a string one code unit
  at a time and looks only at the low byte of each, so that a code unit above \<open>0xFF\<close>
  counts as the character of its low byte.
\<close>

definition hex_digit :: "nat \<Rightarrow> 16 word" where
  "hex_digit n = (if n < 10 then of_nat (48 + n) else of_nat (87 + n))"

definition hex_encode :: "byte list \<Rightarrow> jsstring" where
  "hex_encode bs = concat (map (\<lambda>b. [hex_digit (unat b div 16), hex_digit (unat b mod 16)]) bs)"

definition hex_value :: "16 word \<Rightarrow> nat option" where
  "hex_value c =
     (let n = unat c mod 256
      in if 48 \<le> n \<and> n \<le> 57 then Some (n - 48)
         else if 97 \<le> n \<and> n \<le> 102 then Some (n - 87)
         else if 65 \<le> n \<and> n \<le> 70 then Some (n - 55)
         else None)"

fun hex_decode :: "jsstring \<Rightarrow> byte list" where
  "hex_decode (h # l # cs) =
     (case (hex_value h, hex_value l) of
        (Some a, Some b) \<Rightarrow> of_nat (16 * a + b) # hex_decode cs
      | _ \<Rightarrow> [])"
| "hex_decode _ = []"

text \<open>
  \<open>Buffer.toString('base64')\<close>: three bytes give four characters of the standard
  alphabet, and the last group is padded with \<open>=\<close>.
\<close>

definition base64_char :: "nat \<Rightarrow> 16 word" where
  "base64_char n =
     (if n < 26 then of_nat (65 + n)
      else if n < 52 then of_nat (71 + n)
      else if n < 62 then of_nat (n - 4)
      else if n = 62 then 43 else 47)"

fun base64_encode :: "byte list \<Rightarrow> jsstring" where
  "base64_encode (a # b # c # rest) =
     (let n = unat a * 65536 + unat b * 256 + unat c
      in base64_char (n div 262144) # base64_char (n div 4096 mod 64)
         # base64_char (n div 64 mod 64) # base64_char (n mod 64) # base64_encode rest)"
| "base64_encode [a, b] =
     (let n = unat a * 65536 + unat b * 256
      in [base64_char (n div 262144), base64_char (n div 4096 mod 64),
          base64_char (n div 64 mod 64), 61])"
| "base64_encode [a] =
     (let n = unat a * 65536
      in [base64_char (n div 262144), base64_char (n div 4096 mod 64), 61, 61])"
| "base64_encode [] = []"

text \<open>
  \<open>Buffer.from(s, 'base64')\<close> is lenient: it reads the standard and the URL-safe
  alphabet, skips any other character, stops at the first \<open>=\<close>, and turns the six-bit
  values it has read into bytes, dropping the bits of an incomplete last byte. Here too
  only the low byte of a code unit is looked at.
\<close>

definition base64_value :: "16 word \<Rightarrow> nat option" where
  "base64_value c =
     (let n = unat c mod 256
      in if 65 \<le> n \<and> n \<le> 90 then Some (n - 65)
         else if 97 \<le> n \<and> n \<le> 122 then Some (n - 71)
         else if 48 \<le> n \<and> n \<le> 57 then Some (n + 4)
         else if n = 43 \<or> n = 45 then Some 62
         else if n = 47 \<or> n = 95 then Some 63
         else None)"

fun base64_sextets :: "jsstring \<Rightarrow> nat list" where
  "base64_sextets [] = []"
| "base64_sextets (c # cs) =
     (if unat c mod 256 = 61 then []
      else case base64_value c of
             Some v \<Rightarrow> v # base64_sextets cs
           | None \<Rightarrow> base64_sextets cs)"

fun base64_pack :: "nat list \<Rightarrow> byte list" where
  "base64_pack (s1 # s2 # s3 # s4 # ss) =
     (let n = s1 * 262144 + s2 * 4096 + s3 * 64 + s4
      in of_nat (n div 65536) # of_nat (n div 256 mod 256) # of_nat (n mod 256) # base64_pack ss)"
| "base64_pack [s1, s2, s3] =
     (let n = s1 * 262144 + s2 * 4096 + s3 * 64
      in [of_nat (n div 65536), of_nat (n div 256 mod 256)])"
| "base64_pack [s1, s2] = [of_nat ((s1 * 262144 + s2 * 4096) div 65536)]"
| "base64_pack _ = []"

definition base64_decode :: "jsstring \<Rightarrow> byte list" where
  "base64_decode s = base64_pack (base64_sextets s)"

text \<open>
  The \<open>'utf8'\<close> encoding of a string. A surrogate pair is one code point of four
  bytes; a surrogate that is not part of a pair is written as U+FFFD, the replacement
  character.
\<close>

definition is_high_surrogate :: "16 word \<Rightarrow> bool" where
  "is_high_surrogate u \<longleftrightarrow> 0xD800 \<le> unat u \<and> unat u \<le> 0xDBFF"

definition is_low_surrogate :: "16 word \<Rightarrow> bool" where
  "is_low_surrogate u \<longleftrightarrow> 0xDC00 \<le> unat u \<and> unat u \<le> 0xDFFF"

definition utf8_bytes :: "nat \<Rightarrow> byte list" where
  "utf8_bytes c =
     (if c < 0x80 then [of_nat c]
      else if c < 0x800 then [of_nat (0xC0 + c div 64), of_nat (0x80 + c mod 64)]
      else if c < 0x10000
        then [of_nat (0xE0 + c div 4096), of_nat (0x80 + c div 64 mod 64), of_nat (0x80 + c mod 64)]
      else [of_nat (0xF0 + c div 262144), of_nat (0x80 + c div 4096 mod 64),
            of_nat (0x80 + c div 64 mod 64), of_nat (0x80 + c mod 64)])"

definition replacement_bytes :: "byte list" where
  "replacement_bytes = [0xEF, 0xBF, 0xBD]"

fun utf8_encode :: "jsstring \<Rightarrow> byte list" where
  "utf8_encode [] = []"
| "utf8_encode [u] =
     (if is_high_surrogate u \<or> is_low_surrogate u then replacement_bytes
      else utf8_bytes (unat u))"
| "utf8_encode (u # v # us) =
     (if is_high_surrogate u
      then (if is_low_surrogate v
            then utf8_bytes (0x10000 + (unat u - 0xD800) * 1024 + (unat v - 0xDC00))
                 @ utf8_encode us
            else replacement_bytes @ utf8_encode (v # us))
      else if is_low_surrogate u then replacement_bytes @ utf8_encode (v # us)
      else utf8_bytes (unat u) @ utf8_encode (v # us))"

text \<open>
  Decoding \<open>'utf8'\<close>: a well-formed sequence gives its code point, as one code unit or
  as a surrogate pair; a byte that cannot start or continue a sequence ends the attempt
  with one U+FFFD, and decoding goes on at that byte.
\<close>

definition code_units :: "nat \<Rightarrow> jsstring" where
  "code_units c =
     (if c < 0x10000 then [of_nat c]
      else [of_nat (0xD800 + (c - 0x10000) div 1024), of_nat (0xDC00 + (c - 0x10000) mod 1024)])"

definition between :: "byte \<Rightarrow> nat \<Rightarrow> nat \<Rightarrow> bool" where
  "between b lo hi \<longleftrightarrow> lo \<le> unat b \<and> unat b \<le> hi"

fun utf8_decode :: "byte list \<Rightarrow> jsstring" where
  "utf8_decode [] = []"
| "utf8_decode (b # bs) =
     (let x = unat b
      in if x < 0x80 then of_nat x # utf8_decode bs
         else if 0xC2 \<le> x \<and> x \<le> 0xDF then
           (case bs of
              [] \<Rightarrow> [0xFFFD]
            | c # cs \<Rightarrow>
                if between c 0x80 0xBF
                then code_units ((x - 0xC0) * 64 + (unat c - 0x80)) @ utf8_decode cs
                else 0xFFFD # utf8_decode bs)
         else if 0xE0 \<le> x \<and> x \<le> 0xEF then
           (case bs of
              [] \<Rightarrow> [0xFFFD]
            | c # cs \<Rightarrow>
                if between c (if x = 0xE0 then 0xA0 else 0x80) (if x = 0xED then 0x9F else 0xBF)
                then (case cs of
                        [] \<Rightarrow> [0xFFFD]
                      | d # ds \<Rightarrow>
                          if between d 0x80 0xBF
                          then code_units ((x - 0xE0) * 4096 + (unat c - 0x80) * 64
                                            + (unat d - 0x80)) @ utf8_decode ds
                          else 0xFFFD # utf8_decode cs)
                else 0xFFFD # utf8_decode bs)
         else if 0xF0 \<le> x \<and> x \<le> 0xF4 then
           (case bs of
              [] \<Rightarrow> [0xFFFD]
            | c # cs \<Rightarrow>
                if between c (if x = 0xF0 then 0x90 else 0x80) (if x = 0xF4 then 0x8F else 0xBF)
                then (case cs of
                        [] \<Rightarrow> [0xFFFD]
                      | d # ds \<Rightarrow>
                          if between d 0x80 0xBF
                          then (case ds of
                                  [] \<Rightarrow> [0xFFFD]
                                | e # es \<Rightarrow>
                                    if between e 0x80 0xBF
                                    then code_units ((x - 0xF0) * 262144
                                           + (unat c - 0x80) * 4096 + (unat d - 0x80) * 64
                                           + (unat e - 0x80)) @ utf8_decode es
                                    else 0xFFFD # utf8_decode ds)
                          else 0xFFFD # utf8_decode cs)
                else 0xFFFD # utf8_decode bs)
         else 0xFFFD # utf8_decode bs)"

text \<open>A string is well formed when every surrogate in it is part of a pair.\<close>

fun well_formed :: "jsstring \<Rightarrow> bool" where
  "well_formed [] = True"
| "well_formed [u] = (\<not> is_high_surrogate u \<and> \<not> is_low_surrogate u)"
| "well_formed (u # v # us) =
     (if is_high_surrogate u then is_low_surrogate v \<and> well_formed us
      else \<not> is_low_surrogate u \<and> well_formed (v # us))"

section \<open>The credential vault: AES-256-GCM\<close>

text \<open>
  The AES-256-GCM of the \<open>crypto\<close> module stands behind two parameters: the key stream
  of its counter mode (a byte for a key, a nonce and a position) and its authentication
  tag (128 bits for a key, a nonce and a ciphertext). Encrypting is the XOR of the data
  with the key stream, and so is decrypting, after the tag has been checked.
\<close>

record gcm =
  keystream :: "byte list \<Rightarrow> byte list \<Rightarrow> nat \<Rightarrow> byte"
  auth_tag :: "byte list \<Rightarrow> byte list \<Rightarrow> byte list \<Rightarrow> 128 word"

definition IV_LENGTH :: nat where
  "IV_LENGTH = 16"

definition TAG_LENGTH :: nat where
  "TAG_LENGTH = 16"

definition KEY_LENGTH :: nat where
  "KEY_LENGTH = 32"

definition ctr_xor :: "gcm \<Rightarrow> byte list \<Rightarrow> byte list \<Rightarrow> byte list \<Rightarrow> byte list" where
  "ctr_xor C key iv data =
     map (\<lambda>(i, b). b XOR keystream C key iv i) (zip [0 ..< length data] data)"

definition tag_bytes :: "128 word \<Rightarrow> byte list" where
  "tag_bytes t = map (\<lambda>i. ucast (drop_bit (8 * (15 - i)) t)) [0 ..< 16]"

text \<open>\<open>crypto.randomBytes(n)\<close> takes the next \<open>n\<close> bytes of the entropy source.\<close>

definition randomBytes :: "(nat \<Rightarrow> byte) \<Rightarrow> nat \<Rightarrow> byte list" where
  "randomBytes rnd n = map rnd [0 ..< n]"

text \<open>
  \<open>createCipheriv\<close> and \<open>createDecipheriv\<close> throw for a key that is not 32 bytes long
  and for an empty nonce; \<open>setAuthTag\<close> throws for a tag whose length GCM does not allow.
\<close>

definition createCipheriv :: "byte list \<Rightarrow> byte list \<Rightarrow> js_error option" where
  "createCipheriv key iv =
     (if length key \<noteq> KEY_LENGTH then Some (Error (js ''Invalid key length''))
      else if iv = [] then Some (Error (js ''Invalid initialization vector''))
      else None)"

definition setAuthTag :: "byte list \<Rightarrow> js_error option" where
  "setAuthTag authTag =
     (if length authTag \<in> {4, 8, 12, 13, 14, 15, 16} then None
      else Some (Error (js ''Invalid authentication tag length: ''
                        @ number_to_string (length authTag))))"

definition integrity_error :: js_error where
  "integrity_error = Error (js ''Unsupported state or unable to authenticate data'')"

section \<open>The credential vault: operations\<close>

text \<open>\<open>getEncryptionKey\<close>, given the value of the environment variable.\<close>

definition getEncryptionKey :: "jsstring option \<Rightarrow> js_error + byte list" where
  "getEncryptionKey v =
     (case v of
        None \<Rightarrow> Inl (Error (js ''ENCRYPTION_KEY environment variable is required. Generate one with: openssl rand -hex 32''))
      | Some key \<Rightarrow>
          if key = []
          then Inl (Error (js ''ENCRYPTION_KEY environment variable is required. Generate one with: openssl rand -hex 32''))
          else if length key \<noteq> KEY_LENGTH * 2
          then Inl (Error (js ''ENCRYPTION_KEY must be '' @ number_to_string (KEY_LENGTH * 2)
                           @ js '' hex characters ('' @ number_to_string KEY_LENGTH
                           @ js '' bytes). Generate one with: openssl rand -hex 32''))
          else Inr (hex_decode key))"

text \<open>
  \<open>encrypt\<close>: the nonce, the ciphertext and the tag, concatenated and written in
  base64. The ciphertext passes through its hex text, as in the source.
\<close>

definition encrypt :: "gcm \<Rightarrow> jsstring option \<Rightarrow> (nat \<Rightarrow> byte) \<Rightarrow> jsstring \<Rightarrow> js_error + jsstring" where
  "encrypt C ENCRYPTION_KEY rnd plaintext =
     (if plaintext = [] then Inl (Error (js ''Cannot encrypt empty string''))
      else case getEncryptionKey ENCRYPTION_KEY of
             Inl e \<Rightarrow> Inl e
           | Inr key \<Rightarrow>
               (let iv = randomBytes rnd IV_LENGTH
                in case createCipheriv key iv of
                     Some e \<Rightarrow> Inl e
                   | None \<Rightarrow>
                       (let ciphertext = ctr_xor C key iv (utf8_encode plaintext);
                            encrypted = hex_encode ciphertext;
                            authTag = tag_bytes (auth_tag C key iv ciphertext);
                            combined = iv @ hex_decode encrypted @ authTag
                        in Inr (base64_encode combined))))"

text \<open>
  \<open>decrypt\<close>: the first 16 bytes are the nonce, the last 16 the tag, what lies between
  is the ciphertext. \<open>decipher.final\<close> throws when the tag does not fit; a tag shorter
  than 16 bytes is compared with the start of the computed one.
\<close>

definition decrypt :: "gcm \<Rightarrow> jsstring option \<Rightarrow> jsstring \<Rightarrow> js_error + jsstring" where
  "decrypt C ENCRYPTION_KEY encryptedData =
     (if encryptedData = [] then Inl (Error (js ''Cannot decrypt empty string''))
      else case getEncryptionKey ENCRYPTION_KEY of
             Inl e \<Rightarrow> Inl e
           | Inr key \<Rightarrow>
               (let combined = base64_decode encryptedData;
                    n = int (length combined);
                    iv = slice 0 (int IV_LENGTH) combined;
                    authTag = slice (n - int TAG_LENGTH) n combined;
                    encrypted = slice (int IV_LENGTH) (n - int TAG_LENGTH) combined
                in case createCipheriv key iv of
                     Some e \<Rightarrow> Inl e
                   | None \<Rightarrow>
                       (case setAuthTag authTag of
                          Some e \<Rightarrow> Inl e
                        | None \<Rightarrow>
                            (let ciphertext = hex_decode (hex_encode encrypted)
                             in if take (length authTag) (tag_bytes (auth_tag C key iv ciphertext))
                                   = authTag
                                then Inr (utf8_decode (ctr_xor C key iv ciphertext))
                                else Inl integrity_error))))"

section \<open>The token manager\<close>

text \<open>
  The token response as \<open>response.json()\<close> gives it. \<open>expires_in\<close> is a number when the
  body has one; when it is missing, \<open>tokens.expires_in * 1000\<close> is \<open>NaN\<close>.
\<close>

record TokenResponse =
  access_token :: jsstring
  refresh_token :: jsstring
  expires_in :: "int option"
  token_type :: jsstring

text \<open>
  A row of the table \<open>integrations\<close>. Its columns \<open>id\<close>, \<open>access_token\<close> and
  \<open>refresh_token\<close> are the fields \<open>integration_id\<close>, \<open>sealed_access_token\<close> and
  \<open>sealed_refresh_token\<close>; a timestamp is the instant it denotes, in milliseconds.
\<close>

record Integration =
  integration_id :: jsstring
  user_id :: jsstring
  provider :: jsstring
  sealed_access_token :: jsstring
  sealed_refresh_token :: jsstring
  token_expires_at :: int
  created_at :: int
  updated_at :: int

text \<open>
  \<open>new Date(value)\<close> and \<open>Date.prototype.toISOString\<close>. The time value of a date is a
  number of milliseconds of absolute value at most 8.64e15, or \<open>NaN\<close> (here \<open>None\<close>):
  the constructor clips a value outside that range to \<open>NaN\<close>, and \<open>toISOString\<close> throws
  a \<open>RangeError\<close> on a date whose time value is \<open>NaN\<close>. Times and life times are
  whole numbers; the sum of the source, computed in double precision, is then exact
  wherever it lies in the range of a date.
\<close>

definition new_Date :: "int option \<Rightarrow> int option" where
  "new_Date v =
     (case v of
        None \<Rightarrow> None
      | Some t \<Rightarrow> if \<bar>t\<bar> \<le> 8640000000000000 then Some t else None)"

definition toISOString :: "int option \<Rightarrow> js_error + int" where
  "toISOString d =
     (case d of
        None \<Rightarrow> Inl (Error (js ''Invalid time value''))
      | Some t \<Rightarrow> Inr t)"

text \<open>
  The state the token manager works on: the table, the clock, the entropy source, and
  the refresh tokens that have been posted to the token endpoint.
\<close>

record world =
  integrations :: "Integration list"
  clock :: int
  entropy :: "nat \<Rightarrow> byte"
  token_requests :: "jsstring list"

text \<open>
  The statements that write to the table. The database carries a statement out, or it
  answers with an error and leaves the table as it is. The source reads the error of
  an update and of an upsert, and drops the answer to a delete. A select returns the
  rows that match.
\<close>

datatype db_write = UpdateRow | UpsertRow | DeleteRow

text \<open>
  What does not change during a call: the key in the environment, the cipher, the
  answer of the token endpoint to a refresh token, the \<open>id\<close> the database gives a
  new row, and the message of the error, if any, with which the database answers a
  write.
\<close>

record platform =
  ENCRYPTION_KEY :: "jsstring option"
  cipher :: gcm
  token_endpoint :: "jsstring \<Rightarrow> TokenResponse fetched"
  new_id :: "Integration list \<Rightarrow> jsstring"
  write_error :: "db_write \<Rightarrow> jsstring option"

text \<open>\<open>.single()\<close>: the row, when exactly one row matches.\<close>

definition single :: "'a list \<Rightarrow> 'a option" where
  "single rows = (case rows of [r] \<Rightarrow> Some r | _ \<Rightarrow> None)"

text \<open>\<open>encrypt\<close> in the state: it uses up 16 bytes of entropy when it reaches \<open>randomBytes\<close>.\<close>

definition seal :: "platform \<Rightarrow> jsstring \<Rightarrow> world \<Rightarrow> (js_error + jsstring) \<times> world" where
  "seal P plaintext w =
     (encrypt (cipher P) (ENCRYPTION_KEY P) (entropy w) plaintext,
      if plaintext = [] \<or> isl (getEncryptionKey (ENCRYPTION_KEY P)) then w
      else w\<lparr> entropy := (\<lambda>i. entropy w (i + IV_LENGTH)) \<rparr>)"

text \<open>
  \<open>storeTokens\<close>. Both tokens are sealed, then \<open>tokenData\<close> is built, where
  \<open>expiresAt.toISOString()\<close> may throw, and only then the table is written: by an update
  of the rows with the given \<open>id\<close>, or, without an \<open>id\<close>, by an upsert on the columns
  \<open>user_id\<close> and \<open>provider\<close>. An error of the database is thrown with its message.
\<close>

definition storeTokens ::
  "platform \<Rightarrow> jsstring \<Rightarrow> TokenResponse \<Rightarrow> jsstring option \<Rightarrow> world \<Rightarrow> (js_error + unit) \<times> world" where
  "storeTokens P userId tokens integrationId w =
     (case seal P (access_token tokens) w of
        (Inl e, w1) \<Rightarrow> (Inl e, w1)
      | (Inr encryptedAccessToken, w1) \<Rightarrow>
          (case seal P (refresh_token tokens) w1 of
             (Inl e, w2) \<Rightarrow> (Inl e, w2)
           | (Inr encryptedRefreshToken, w2) \<Rightarrow>
               (let expiresAt = new_Date (map_option (\<lambda>seconds. clock w2 + seconds * 1000)
                                            (expires_in tokens))
                in case toISOString expiresAt of
                     Inl e \<Rightarrow> (Inl e, w2)
                   | Inr expiry \<Rightarrow>
                       (let tokenData = (\<lambda>r. r\<lparr> sealed_access_token := encryptedAccessToken,
                                               sealed_refresh_token := encryptedRefreshToken,
                                               token_expires_at := expiry,
                                               updated_at := clock w2 \<rparr>);
                            conflict = (\<lambda>r. user_id r = userId \<and> provider r = js ''supabase'')
                        in if truthy integrationId
                           then (case write_error P UpdateRow of
                                   Some msg \<Rightarrow>
                                     (Inl (Error (js ''Failed to update tokens: '' @ msg)), w2)
                                 | None \<Rightarrow>
                                     (Inr (),
                                      w2\<lparr> integrations :=
                                            map (\<lambda>r. if Some (integration_id r) = integrationId
                                                      then tokenData r else r)
                                              (integrations w2) \<rparr>))
                           else (case write_error P UpsertRow of
                                   Some msg \<Rightarrow>
                                     (Inl (Error (js ''Failed to store tokens: '' @ msg)), w2)
                                 | None \<Rightarrow>
                                     if filter conflict (integrations w2) \<noteq> []
                                     then (Inr (),
                                           w2\<lparr> integrations :=
                                                 map (\<lambda>r. if conflict r then tokenData r else r)
                                                   (integrations w2) \<rparr>)
                                     else (Inr (),
                                           w2\<lparr> integrations := integrations w2
                                                 @ [\<lparr> integration_id = new_id P (integrations w2),
                                                      user_id = userId,
                                                      provider = js ''supabase'',
                                                      sealed_access_token = encryptedAccessToken,
                                                      sealed_refresh_token = encryptedRefreshToken,
                                                      token_expires_at = expiry,
                                                      created_at = clock w2,
                                                      updated_at = clock w2 \<rparr>] \<rparr>))))))"

text \<open>
  \<open>refreshAccessToken\<close>. On a response that is not OK the body is read, the delete of
  the row is sent, and the error that asks to reconnect is thrown; the answer of the
  database to the delete is not looked at.
\<close>

definition refreshAccessToken ::
  "platform \<Rightarrow> jsstring \<Rightarrow> world \<Rightarrow> (js_error + TokenResponse) \<times> world" where
  "refreshAccessToken P integrationId w =
     (case single (filter (\<lambda>r. integration_id r = integrationId) (integrations w)) of
        None \<Rightarrow> (Inl (Error (js ''Integration not found'')), w)
      | Some integration \<Rightarrow>
          (case decrypt (cipher P) (ENCRYPTION_KEY P) (sealed_refresh_token integration) of
             Inl e \<Rightarrow> (Inl e, w)
           | Inr refreshToken \<Rightarrow>
               (let w1 = w\<lparr> token_requests := token_requests w @ [refreshToken] \<rparr>
                in case token_endpoint P refreshToken of
                     Rejected e \<Rightarrow> (Inl e, w1)
                   | Resolved response \<Rightarrow>
                       if \<not> ok response
                       then (case body_text response of
                               Inl e \<Rightarrow> (Inl e, w1)
                             | Inr errorText \<Rightarrow>
                                 (Inl (Error (js ''Token refresh failed. Please reconnect your Supabase account.'')),
                                  case write_error P DeleteRow of
                                    Some msg \<Rightarrow> w1
                                  | None \<Rightarrow>
                                      w1\<lparr> integrations :=
                                            filter (\<lambda>r. integration_id r \<noteq> integrationId)
                                              (integrations w1) \<rparr>))
                       else (case body_json response of
                               Inl e \<Rightarrow> (Inl e, w1)
                             | Inr tokens \<Rightarrow>
                                 (case storeTokens P (user_id integration) tokens (Some integrationId) w1 of
                                    (Inl e, w2) \<Rightarrow> (Inl e, w2)
                                  | (Inr u, w2) \<Rightarrow> (Inr tokens, w2))))))"

definition getValidAccessToken ::
  "platform \<Rightarrow> jsstring \<Rightarrow> world \<Rightarrow> (js_error + jsstring) \<times> world" where
  "getValidAccessToken P userId w =
     (case single (filter (\<lambda>r. user_id r = userId \<and> provider r = js ''supabase'') (integrations w)) of
        None \<Rightarrow> (Inl (Error (js ''No Supabase integration found for user'')), w)
      | Some integration \<Rightarrow>
          (let expiresAt = token_expires_at integration;
               now = clock w;
               fiveMinutesFromNow = now + 5 * 60 * 1000
           in if expiresAt > fiveMinutesFromNow
              then (decrypt (cipher P) (ENCRYPTION_KEY P) (sealed_access_token integration), w)
              else (case refreshAccessToken P (integration_id integration) w of
                      (Inl e, w') \<Rightarrow> (Inl e, w')
                    | (Inr newTokens, w') \<Rightarrow> (Inr (access_token newTokens), w'))))"

section \<open>The scanner: data\<close>

datatype severity = Critical | High | Medium

datatype jsval = VNull | VBool bool | VNum int | VStr jsstring

text \<open>
  A returned row is an object; it is represented by its properties in the order
  \<open>Object.keys\<close> enumerates them.
\<close>

type_synonym row = "(jsstring \<times> jsval) list"

record AIAnalysis =
  risk_assessment :: jsstring
  sensitive_data_found :: "jsstring list"
  recommendations :: "jsstring list"
  auto_fix_sql :: "jsstring option"

record Vulnerability =
  table :: jsstring
  issue :: jsstring
  severity :: severity
  details :: jsstring
  leaked_fields :: "jsstring list option"
  sample_data :: "row option"
  ai_analysis :: "AIAnalysis option"

record Summary =
  total_tables :: int
  vulnerable_tables :: int
  secure_tables :: int

record ScanResult =
  success :: bool
  vulnerabilities :: "Vulnerability list"
  summary :: Summary
  error :: "jsstring option"

record Options =
  maxTables :: "int option"
  enableAI :: "bool option"

text \<open>One row of the catalog query: \<open>table_name\<close> and \<open>rls_enabled\<close>.\<close>

record CatalogRow =
  table_name :: jsstring
  rls_enabled :: bool

text \<open>
  The outcome of \<open>anonClient.from(t).select('*').limit(1)\<close>: the call throws, or
  resolves to \<open>{ data, error }\<close>.
\<close>

datatype probe = ProbeThrows js_error | ProbeReturns "js_error option" "row list option"

text \<open>
  The outcome of \<open>anthropic.messages.create\<close>: it rejects, or resolves to a message
  whose content is a list of blocks.
\<close>

datatype content_block = TextBlock jsstring | OtherBlock

datatype ai_reply = AIRejects js_error | AIMessage "content_block list"

text \<open>
  The world outside \<open>scanProject\<close>. \<open>createClient\<close> may throw; the Management API
  answers the catalog query for an access token and a project ref; the anonymous client
  answers a read of a table; the classifier answers a prompt, which is a function of the
  table name, the field list, the sample row and the protection flag; \<open>JSON_parse\<close> is
  \<open>JSON.parse\<close> (\<open>None\<close> when it throws). \<open>completion_order\<close> is the order in which
  the event loop resumes the tasks that are waiting: each entry picks, modulo their
  number, one of the tasks in flight; when the list is used up the first one is resumed.
\<close>

record env =
  createClient :: "jsstring \<Rightarrow> jsstring \<Rightarrow> js_error option"
  ANTHROPIC_API_KEY :: "jsstring option"
  management_api :: "jsstring \<Rightarrow> jsstring \<Rightarrow> CatalogRow list fetched"
  anon_select :: "jsstring \<Rightarrow> probe"
  messages_create :: "jsstring \<Rightarrow> jsstring list \<Rightarrow> row \<Rightarrow> bool \<Rightarrow> ai_reply"
  JSON_parse :: "jsstring \<Rightarrow> AIAnalysis option"
  completion_order :: "nat list"

text \<open>What a stub target observes of one scan.\<close>

datatype event =
  CatalogStart | CatalogEnd
  | ProbeStart nat | ProbeEnd nat
  | AIStart nat | AIEnd nat

section \<open>The scanner: operations\<close>

text \<open>
  \<open>executeQuery\<close> of the Management API client, for the catalog query of the scanner.
\<close>

definition executeQuery :: "env \<Rightarrow> jsstring \<Rightarrow> jsstring \<Rightarrow> js_error + CatalogRow list" where
  "executeQuery E accessToken projectRef =
     (case management_api E accessToken projectRef of
        Rejected e \<Rightarrow> Inl e
      | Resolved r \<Rightarrow>
          if \<not> ok r
          then (case body_text r of
                  Inl e \<Rightarrow> Inl e
                | Inr error_body \<Rightarrow>
                    Inl (Error (js ''Failed to execute query: '' @ number_to_string (status r)
                                @ js '' '' @ error_body)))
          else body_json r)"

text \<open>
  \<open>content.text.match(/\{[\s\S]*\}/)\<close>: from the first opening brace to the last closing
  brace after it.
\<close>

definition json_match :: "jsstring \<Rightarrow> jsstring option" where
  "json_match t =
     (let r = dropWhile (\<lambda>c. c \<noteq> 0x7B) t
      in if 0x7D \<in> set r then Some (rev (dropWhile (\<lambda>c. c \<noteq> 0x7D) (rev r))) else None)"

text \<open>
  \<open>analyzeWithAI\<close>. Every failure inside its \<open>try\<close> gives \<open>undefined\<close>: a rejected
  request, an empty content list (reading \<open>type\<close> of \<open>undefined\<close> throws), a block that
  is not text, a text without a brace pair, and a \<open>JSON.parse\<close> that throws.
\<close>

definition analyzeWithAI ::
  "env \<Rightarrow> bool \<Rightarrow> jsstring \<Rightarrow> jsstring list \<Rightarrow> row \<Rightarrow> bool \<Rightarrow> AIAnalysis option" where
  "analyzeWithAI E anthropic tableName flds sampleData rlsEnabled =
     (if \<not> anthropic then None
      else case messages_create E tableName flds sampleData rlsEnabled of
             AIRejects e \<Rightarrow> None
           | AIMessage content \<Rightarrow>
               (case content of
                  [] \<Rightarrow> None
                | TextBlock t # _ \<Rightarrow>
                    (case json_match t of None \<Rightarrow> None | Some m \<Rightarrow> JSON_parse E m)
                | OtherBlock # _ \<Rightarrow> None))"

text \<open>The object that \<open>scanTable\<close> pushes.\<close>

definition make_finding ::
  "jsstring \<Rightarrow> jsstring list \<Rightarrow> row \<Rightarrow> bool \<Rightarrow> AIAnalysis option \<Rightarrow> Vulnerability" where
  "make_finding tableName flds first_row rlsEnabled aiAnalysis =
     \<lparr> table = tableName,
       issue = (if rlsEnabled
                then js ''RLS is enabled but policy is too permissive (public access)''
                else js ''Anonymous users can read data from this table''),
       severity = Critical,
       details = (if rlsEnabled
                  then js ''Table \"'' @ tableName
                       @ js ''\" has RLS enabled, but a policy is allowing broad public access. ''
                       @ number_to_string (length flds) @ js '' fields are exposed.''
                  else js ''Table \"'' @ tableName
                       @ js ''\" is publicly accessible without authentication. ''
                       @ number_to_string (length flds) @ js '' fields are exposed.''),
       leaked_fields = Some flds,
       sample_data = Some first_row,
       ai_analysis = aiAnalysis \<rparr>"

text \<open>
  \<open>scanTable\<close> is an async function: it runs to its first \<open>await\<close> (the anonymous read),
  is resumed when the read settles, and, when the classifier is configured and the table
  is readable, waits a second time for the classifier. A task is a call of \<open>scanTable\<close>
  that is waiting; its number is the position of its table in \<open>tablesToScan\<close>.
\<close>

datatype phase = Probing | Analyzing "jsstring list" row bool

datatype task = Task (task_index: nat) (task_table: jsstring) (task_phase: phase)

record scan_state =
  found :: "Vulnerability list"
  trace :: "event list"
  pending :: "nat list"

text \<open>
  Resuming a task runs it to its next \<open>await\<close> or to its end; the result is the task if
  it waits again. \<open>tableRlsStatus.get(tableName) || false\<close> is the lookup with default.
\<close>

fun scanTable ::
  "env \<Rightarrow> bool \<Rightarrow> (jsstring \<rightharpoonup> bool) \<Rightarrow> task \<Rightarrow> scan_state \<Rightarrow> task option \<times> scan_state" where
  "scanTable E anthropic tableRlsStatus (Task i tableName Probing) st =
     (let st1 = st\<lparr>trace := trace st @ [ProbeEnd i]\<rparr>
      in case anon_select E tableName of
           ProbeThrows e \<Rightarrow> (None, st1)
         | ProbeReturns anonError anonData \<Rightarrow>
             (case (anonError, anonData) of
                (None, Some (first_row # _)) \<Rightarrow>
                  (let flds = map fst first_row;
                       rlsEnabled = (case tableRlsStatus tableName of
                                       Some b \<Rightarrow> b | None \<Rightarrow> False)
                   in if anthropic
                      then (Some (Task i tableName (Analyzing flds first_row rlsEnabled)),
                            st1\<lparr>trace := trace st1 @ [AIStart i]\<rparr>)
                      else (None,
                            st1\<lparr>found := found st1
                                   @ [make_finding tableName flds first_row rlsEnabled
                                        (analyzeWithAI E anthropic tableName flds first_row
                                           rlsEnabled)]\<rparr>))
              | _ \<Rightarrow> (None, st1)))"
| "scanTable E anthropic tableRlsStatus (Task i tableName (Analyzing flds first_row rlsEnabled)) st =
     (None,
      st\<lparr>trace := trace st @ [AIEnd i],
         found := found st
           @ [make_finding tableName flds first_row rlsEnabled
                (analyzeWithAI E anthropic tableName flds first_row rlsEnabled)]\<rparr>)"

text \<open>
  \<open>await Promise.all(chunk.map(scanTable))\<close>, after the calls have been started: the
  event loop resumes one waiting task after the other, in the order the environment
  decides, until none is left.
\<close>

fun phase_weight :: "task \<Rightarrow> nat" where
  "phase_weight (Task i t Probing) = 2"
| "phase_weight (Task i t (Analyzing f r b)) = 1"

definition next_choice :: "nat list \<Rightarrow> nat \<Rightarrow> nat" where
  "next_choice order n = (case order of [] \<Rightarrow> 0 | c # _ \<Rightarrow> c mod n)"

definition settle :: "nat \<Rightarrow> task option \<Rightarrow> task list \<Rightarrow> task list" where
  "settle k r ts = (case r of None \<Rightarrow> take k ts @ drop (Suc k) ts | Some t \<Rightarrow> ts[k := t])"

function promise_all ::
  "env \<Rightarrow> bool \<Rightarrow> (jsstring \<rightharpoonup> bool) \<Rightarrow> task list \<Rightarrow> scan_state \<Rightarrow> scan_state" where
  "promise_all E anthropic tableRlsStatus ts st =
     (if ts = [] then st
      else let k = next_choice (pending st) (length ts);
               r = scanTable E anthropic tableRlsStatus (ts ! k) (st\<lparr>pending := tl (pending st)\<rparr>)
           in promise_all E anthropic tableRlsStatus (settle k (fst r) ts) (snd r))"
  by pat_completeness auto

lemma next_choice_less: "0 < n \<Longrightarrow> next_choice order n < n"
  by (simp add: next_choice_def split: list.splits)

lemma phase_weight_pos: "0 < phase_weight t"
  by (cases t rule: phase_weight.cases) simp_all

lemma scanTable_weight:
  "fst (scanTable E a m t st) = Some t' \<Longrightarrow> phase_weight t' < phase_weight t"
  by (cases "(E, a, m, t, st)" rule: scanTable.cases)
     (auto simp: Let_def split: probe.splits option.splits list.splits if_splits)

lemma weight_split:
  assumes "k < length ts"
  shows "sum_list (map phase_weight ts)
      = sum_list (map phase_weight (take k ts)) + phase_weight (ts ! k)
        + sum_list (map phase_weight (drop (Suc k) ts))"
proof -
  have "ts = take k ts @ ts ! k # drop (Suc k) ts"
    using assms by (rule id_take_nth_drop)
  then have "map phase_weight ts
      = map phase_weight (take k ts) @ phase_weight (ts ! k) # map phase_weight (drop (Suc k) ts)"
    by (metis list.simps(9) map_append)
  then show ?thesis by simp
qed

lemma weight_settle:
  assumes "k < length ts"
    and "\<And>t'. r = Some t' \<Longrightarrow> phase_weight t' < phase_weight (ts ! k)"
  shows "sum_list (map phase_weight (settle k r ts)) < sum_list (map phase_weight ts)"
proof (cases r)
  case None
  with weight_split [OF assms(1)] phase_weight_pos [of "ts ! k"] show ?thesis
    by (simp add: settle_def)
next
  case (Some t')
  have "ts[k := t'] = take k ts @ t' # drop (Suc k) ts"
    using assms(1) by (rule upd_conv_take_nth_drop)
  then have "sum_list (map phase_weight (ts[k := t']))
      = sum_list (map phase_weight (take k ts)) + phase_weight t'
        + sum_list (map phase_weight (drop (Suc k) ts))"
    by simp
  with weight_split [OF assms(1)] assms(2) [OF Some] Some show ?thesis
    by (simp add: settle_def)
qed

termination promise_all
proof (relation "measure (\<lambda>(E, a, m, ts, st). sum_list (map phase_weight ts))", goal_cases)
  case 1
  show ?case by simp
next
  case (2 E a m ts st k r)
  then have "k < length ts"
    by (simp add: next_choice_less)
  moreover have "\<And>t'. fst r = Some t' \<Longrightarrow> phase_weight t' < phase_weight (ts ! k)"
    using 2 by (auto dest: scanTable_weight)
  ultimately show ?case
    by (simp add: weight_settle)
qed

text \<open>
  The loop of \<open>scanProject\<close> over \<open>tablesToScan\<close>: each round takes the next chunk,
  starts \<open>scanTable\<close> on each of its tables (each call runs to its first \<open>await\<close>, where
  the read is issued), and waits for all of them.
\<close>

definition CONCURRENCY_LIMIT :: nat where
  "CONCURRENCY_LIMIT = 5"

function scan_loop ::
  "env \<Rightarrow> bool \<Rightarrow> (jsstring \<rightharpoonup> bool) \<Rightarrow> jsstring list \<Rightarrow> nat \<Rightarrow> scan_state \<Rightarrow> scan_state" where
  "scan_loop E anthropic tableRlsStatus tablesToScan i st =
     (if i < length tablesToScan
      then let chunk = slice (int i) (int (i + CONCURRENCY_LIMIT)) tablesToScan;
               numbers = [i ..< i + length chunk];
               started = st\<lparr>trace := trace st @ map ProbeStart numbers\<rparr>;
               ts = map (\<lambda>(k, t). Task k t Probing) (zip numbers chunk)
           in scan_loop E anthropic tableRlsStatus tablesToScan (i + CONCURRENCY_LIMIT)
                (promise_all E anthropic tableRlsStatus ts started)
      else st)"
  by pat_completeness auto
termination
  by (relation "measure (\<lambda>(E, a, m, tabs, i, st). length tabs - i)")
     (auto simp: CONCURRENCY_LIMIT_def)

declare promise_all.simps [simp del] scan_loop.simps [simp del]

text \<open>\<open>error instanceof Error ? error.message : fallback\<close>.\<close>

definition error_text :: "js_error \<Rightarrow> jsstring \<Rightarrow> jsstring" where
  "error_text e fallback = (case e of Error m \<Rightarrow> m | NonError \<Rightarrow> fallback)"

definition no_tables :: Summary where
  "no_tables = \<lparr> total_tables = 0, vulnerable_tables = 0, secure_tables = 0 \<rparr>"

definition failed_scan :: "jsstring \<Rightarrow> ScanResult" where
  "failed_scan msg =
     \<lparr> success = False, vulnerabilities = [], summary = no_tables, error = Some msg \<rparr>"

text \<open>
  \<open>scanProject\<close>, with the events a stub target would record. The first component of
  the result is what the function returns.
\<close>

definition scanProject_run ::
  "env \<Rightarrow> jsstring \<Rightarrow> jsstring \<Rightarrow> jsstring \<Rightarrow> jsstring \<Rightarrow> jsstring \<Rightarrow> Options
     \<Rightarrow> ScanResult \<times> event list" where
  "scanProject_run E projectUrl projectRef serviceKey anonKey accessToken options =
     (let maxTables' = (case maxTables options of None \<Rightarrow> 10 | Some n \<Rightarrow> n);
          enableAI' = (case enableAI options of None \<Rightarrow> True | Some b \<Rightarrow> b)
      in case createClient E projectUrl serviceKey of
           Some e \<Rightarrow> (failed_scan (error_text e (js ''Unknown error occurred'')), [])
         | None \<Rightarrow>
        (case createClient E projectUrl anonKey of
           Some e \<Rightarrow> (failed_scan (error_text e (js ''Unknown error occurred'')), [])
         | None \<Rightarrow>
           (let anthropic = (enableAI' \<and> truthy (ANTHROPIC_API_KEY E))
            in case executeQuery E accessToken projectRef of
                 Inl e \<Rightarrow>
                   (failed_scan (error_text e
                      (js ''Failed to query database schema via Management API'')),
                    [CatalogStart, CatalogEnd])
               | Inr result \<Rightarrow>
                   if result = []
                   then (\<lparr> success = True, vulnerabilities = [], summary = no_tables,
                           error = None \<rparr>,
                         [CatalogStart, CatalogEnd])
                   else
                     (let tableNames = map table_name result;
                          tableRlsStatus =
                            fold (\<lambda>r m. m(table_name r \<mapsto> rls_enabled r)) result Map.empty;
                          tablesToScan = slice 0 maxTables' tableNames;
                          scannedCount = int (length tablesToScan);
                          st = scan_loop E anthropic tableRlsStatus tablesToScan 0
                                 \<lparr> found = [], trace = [CatalogStart, CatalogEnd],
                                   pending = completion_order E \<rparr>
                      in (\<lparr> success = True, vulnerabilities = found st,
                            summary = \<lparr> total_tables = scannedCount,
                                        vulnerable_tables = int (length (found st)),
                                        secure_tables = scannedCount - int (length (found st)) \<rparr>,
                            error = None \<rparr>,
                          trace st)))))"

definition scanProject ::
  "env \<Rightarrow> jsstring \<Rightarrow> jsstring \<Rightarrow> jsstring \<Rightarrow> jsstring \<Rightarrow> jsstring \<Rightarrow> Options \<Rightarrow> ScanResult" where
  "scanProject E projectUrl projectRef serviceKey anonKey accessToken options =
     fst (scanProject_run E projectUrl projectRef serviceKey anonKey accessToken options)"

definition scan_events ::
  "env \<Rightarrow> jsstring \<Rightarrow> jsstring \<Rightarrow> jsstring \<Rightarrow> jsstring \<Rightarrow> jsstring \<Rightarrow> Options \<Rightarrow> event list" where
  "scan_events E projectUrl projectRef serviceKey anonKey accessToken options =
     snd (scanProject_run E projectUrl projectRef serviceKey anonKey accessToken options)"

text \<open>
  What one call of \<open>scanTable\<close> does from start to end, read off its body: the read
  is a leak when \<open>!anonError && anonData && anonData.length > 0\<close>, and then exactly one
  object is pushed.
\<close>

definition readable_row :: "env \<Rightarrow> jsstring \<Rightarrow> row option" where
  "readable_row E tableName =
     (case anon_select E tableName of
        ProbeThrows e \<Rightarrow> None
      | ProbeReturns anonError anonData \<Rightarrow>
          (case (anonError, anonData) of
             (None, Some (first_row # _)) \<Rightarrow> Some first_row
           | _ \<Rightarrow> None))"

definition rls_flag :: "(jsstring \<rightharpoonup> bool) \<Rightarrow> jsstring \<Rightarrow> bool" where
  "rls_flag tableRlsStatus tableName =
     (case tableRlsStatus tableName of Some b \<Rightarrow> b | None \<Rightarrow> False)"

definition scanTable_findings ::
  "env \<Rightarrow> bool \<Rightarrow> (jsstring \<rightharpoonup> bool) \<Rightarrow> jsstring \<Rightarrow> Vulnerability list" where
  "scanTable_findings E anthropic tableRlsStatus tableName =
     (case readable_row E tableName of
        None \<Rightarrow> []
      | Some first_row \<Rightarrow>
          [make_finding tableName (map fst first_row) first_row
             (rls_flag tableRlsStatus tableName)
             (analyzeWithAI E anthropic tableName (map fst first_row) first_row
                (rls_flag tableRlsStatus tableName))])"

fun task_findings ::
  "env \<Rightarrow> bool \<Rightarrow> (jsstring \<rightharpoonup> bool) \<Rightarrow> task \<Rightarrow> Vulnerability list" where
  "task_findings E anthropic tableRlsStatus (Task i tableName Probing) =
     scanTable_findings E anthropic tableRlsStatus tableName"
| "task_findings E anthropic tableRlsStatus (Task i tableName (Analyzing flds first_row rlsEnabled)) =
     [make_finding tableName flds first_row rlsEnabled
        (analyzeWithAI E anthropic tableName flds first_row rlsEnabled)]"

text \<open>
  What a scan is to report, read off \<open>scanProject\<close>: the tables it scans, the
  protection flags it has recorded, whether the classifier is used, and the findings
  of a list of tables in the order of that list, which for the scanned tables is the
  order of the catalog.
\<close>

definition tables_to_scan ::
  "env \<Rightarrow> jsstring \<Rightarrow> jsstring \<Rightarrow> jsstring \<Rightarrow> jsstring \<Rightarrow> jsstring \<Rightarrow> Options \<Rightarrow> jsstring list" where
  "tables_to_scan E projectUrl projectRef serviceKey anonKey accessToken options =
     (case (createClient E projectUrl serviceKey, createClient E projectUrl anonKey,
            executeQuery E accessToken projectRef) of
        (None, None, Inr result) \<Rightarrow>
          slice 0 (case maxTables options of None \<Rightarrow> 10 | Some n \<Rightarrow> n) (map table_name result)
      | _ \<Rightarrow> [])"

definition rls_status :: "env \<Rightarrow> jsstring \<Rightarrow> jsstring \<Rightarrow> (jsstring \<rightharpoonup> bool)" where
  "rls_status E projectRef accessToken =
     (case executeQuery E accessToken projectRef of
        Inr result \<Rightarrow> fold (\<lambda>r m. m(table_name r \<mapsto> rls_enabled r)) result Map.empty
      | Inl e \<Rightarrow> Map.empty)"

definition classifier_on :: "env \<Rightarrow> Options \<Rightarrow> bool" where
  "classifier_on E options =
     ((case enableAI options of None \<Rightarrow> True | Some b \<Rightarrow> b) \<and> truthy (ANTHROPIC_API_KEY E))"

definition findings_in_catalog_order ::
  "env \<Rightarrow> jsstring \<Rightarrow> jsstring \<Rightarrow> jsstring \<Rightarrow> jsstring \<Rightarrow> jsstring \<Rightarrow> Options
     \<Rightarrow> jsstring list \<Rightarrow> Vulnerability list" where
  "findings_in_catalog_order E projectUrl projectRef serviceKey anonKey accessToken options tabs =
     concat (map (scanTable_findings E (classifier_on E options)
                    (rls_status E projectRef accessToken)) tabs)"

definition without_annotation :: "Vulnerability \<Rightarrow> Vulnerability" where
  "without_annotation f = f\<lparr> ai_analysis := None \<rparr>"

text \<open>
  What the stub target counts: a read is in flight from its start to its end.
\<close>

definition started :: "event list \<Rightarrow> nat set" where
  "started tr = set (List.map_filter (\<lambda>e. case e of ProbeStart i \<Rightarrow> Some i | _ \<Rightarrow> None) tr)"

definition ended :: "event list \<Rightarrow> nat set" where
  "ended tr = set (List.map_filter (\<lambda>e. case e of ProbeEnd i \<Rightarrow> Some i | _ \<Rightarrow> None) tr)"

definition in_flight :: "event list \<Rightarrow> nat set" where
  "in_flight tr = started tr - ended tr"

text \<open>
  The calls of \<open>scanTable\<close> in the order in which they return, read off the events,
  each call under the number of its table: a call returns when its read ends, unless
  it then asks the classifier, and in that case when the answer of the classifier has
  come.
\<close>

definition call_ends :: "(nat \<Rightarrow> bool) \<Rightarrow> event list \<Rightarrow> nat list" where
  "call_ends asks tr =
     List.map_filter
       (\<lambda>e. case e of
              ProbeEnd i \<Rightarrow> if asks i then None else Some i
            | AIEnd i \<Rightarrow> Some i
            | _ \<Rightarrow> None) tr"

definition finished :: "event list \<Rightarrow> nat list" where
  "finished tr = call_ends (\<lambda>i. AIStart i \<in> set tr) tr"

text \<open>
  The shape of the events of a scan of \<open>n\<close> tables, after the rounds before table
  \<open>i\<close>: the reads of the tables before \<open>i\<close> have started and ended, at most five are
  in flight after any prefix, and a read starts only after the catalog query has ended
  and after the reads of the rounds before its own have ended.
\<close>

text \<open>The consecutive groups of at most \<open>c\<close> elements of a list.\<close>

function chunks :: "nat \<Rightarrow> 'a list \<Rightarrow> 'a list list" where
  "chunks c xs = (if c = 0 \<or> xs = [] then [] else take c xs # chunks c (drop c xs))"
  by pat_completeness auto
termination
  by (relation "measure (\<lambda>(c, xs). length xs)") auto

declare chunks.simps [simp del]

definition probing :: "task list \<Rightarrow> nat set" where
  "probing ts = {task_index t |t. t \<in> set ts \<and> task_phase t = Probing}"

definition grouped :: "nat \<Rightarrow> nat \<Rightarrow> event list \<Rightarrow> bool" where
  "grouped n i tr \<longleftrightarrow>
     started tr = {0 ..< min i n} \<and> ended tr = {0 ..< min i n} \<and> CatalogEnd \<in> set tr
     \<and> (\<forall>k. card (in_flight (take k tr)) \<le> CONCURRENCY_LIMIT)
     \<and> (\<forall>p j. p < length tr \<and> tr ! p = ProbeStart j \<longrightarrow>
            CatalogEnd \<in> set (take p tr)
            \<and> (\<forall>a. a div CONCURRENCY_LIMIT < j div CONCURRENCY_LIMIT \<longrightarrow> a \<in> ended (take p tr)))"

text \<open>\<open>decrypt(encrypt(s))\<close>.\<close>

definition round_trip :: "gcm \<Rightarrow> jsstring option \<Rightarrow> (nat \<Rightarrow> byte) \<Rightarrow> jsstring \<Rightarrow> js_error + jsstring" where
  "round_trip C key_text rnd s =
     (case encrypt C key_text rnd s of
        Inl e \<Rightarrow> Inl e
      | Inr blob \<Rightarrow> decrypt C key_text blob)"

text \<open>A sealed blob with bit \<open>j\<close> of its byte \<open>p\<close> flipped.\<close>

definition flip_bit :: "nat \<Rightarrow> nat \<Rightarrow> byte list \<Rightarrow> byte list" where
  "flip_bit p j bs = bs[p := (bs ! p) XOR push_bit j 1]"

section \<open>Example vault\<close>

text \<open>
  A key of 64 hex digits, an entropy source, and a stand-in for the cipher: the
  properties below hold for every key stream and every tag function, and these are
  only there to run the definitions.
\<close>

definition example_key :: jsstring where
  "example_key = js ''000102030405060708090a0b0c0d0e0f101112131415161718191a1b1c1d1e1f''"

definition example_entropy :: "nat \<Rightarrow> byte" where
  "example_entropy i = of_nat (17 * i + 3)"

definition example_keystream :: "byte list \<Rightarrow> byte list \<Rightarrow> nat \<Rightarrow> byte" where
  "example_keystream key iv i = of_nat (length key + 5 * length iv + 11 * i)"

definition example_tag :: "byte list \<Rightarrow> byte list \<Rightarrow> byte list \<Rightarrow> 128 word" where
  "example_tag key iv data = of_nat (sum_list (map unat (key @ iv @ data)))"

definition example_gcm :: gcm where
  "example_gcm = \<lparr> keystream = example_keystream, auth_tag = example_tag \<rparr>"

section \<open>Example credentials\<close>

text \<open>
  One stored credential of user \<open>user-1\<close>, sealed with the example key, and two token
  endpoints: one that rejects every refresh token and one that grants a new pair.
\<close>

definition example_sealed :: "jsstring \<Rightarrow> jsstring" where
  "example_sealed s =
     (case encrypt example_gcm (Some example_key) example_entropy s of
        Inr blob \<Rightarrow> blob
      | Inl e \<Rightarrow> [])"

definition example_row :: "int \<Rightarrow> Integration" where
  "example_row expires =
     \<lparr> integration_id = js ''int-1'', user_id = js ''user-1'', provider = js ''supabase'',
       sealed_access_token = example_sealed (js ''access-1''),
       sealed_refresh_token = example_sealed (js ''refresh-1''),
       token_expires_at = expires, created_at = 0, updated_at = 0 \<rparr>"

definition example_world :: "int \<Rightarrow> int \<Rightarrow> world" where
  "example_world expires now =
     \<lparr> integrations = [example_row expires], clock = now, entropy = example_entropy,
       token_requests = [] \<rparr>"

definition new_tokens :: TokenResponse where
  "new_tokens =
     \<lparr> access_token = js ''access-2'', refresh_token = js ''refresh-2'', expires_in = Some 3600,
       token_type = js ''bearer'' \<rparr>"

definition endpoint_rejects :: "jsstring \<Rightarrow> TokenResponse fetched" where
  "endpoint_rejects refreshToken =
     Resolved (Response False 400 (Inr (js ''invalid_grant'')) (Inl NonError))"

definition endpoint_grants :: "jsstring \<Rightarrow> TokenResponse fetched" where
  "endpoint_grants refreshToken = Resolved (Response True 200 (Inr []) (Inr new_tokens))"

definition fixed_id :: "Integration list \<Rightarrow> jsstring" where
  "fixed_id rows = js ''int-new''"

definition database_up :: "db_write \<Rightarrow> jsstring option" where
  "database_up statement = None"

definition example_platform :: "(jsstring \<Rightarrow> TokenResponse fetched) \<Rightarrow> platform" where
  "example_platform endpoint =
     \<lparr> ENCRYPTION_KEY = Some example_key, cipher = example_gcm, token_endpoint = endpoint,
       new_id = fixed_id, write_error = database_up \<rparr>"

text \<open>
  A database that answers every write with an error, and a token endpoint that grants
  a pair of tokens whose life time leads beyond the last instant of \<open>Date\<close>.
\<close>

definition database_down :: "db_write \<Rightarrow> jsstring option" where
  "database_down statement = Some (js ''connection refused'')"

definition endpoint_grants_forever :: "jsstring \<Rightarrow> TokenResponse fetched" where
  "endpoint_grants_forever refreshToken =
     Resolved (Response True 200 (Inr []) (Inr (new_tokens\<lparr> expires_in := Some 8640000000001 \<rparr>)))"

section \<open>Example targets\<close>

text \<open>
  A target with three tables: \<open>orders\<close> is protected and returns no row to the
  anonymous client, \<open>profiles\<close> has protection switched on but returns a row,
  \<open>user_secrets\<close> has no protection and returns a row. The classifier is not
  configured.
\<close>

definition secrets_row :: row where
  "secrets_row = [(js ''id'', VNum 1), (js ''secret_data'', VStr (js ''hunter2''))]"

definition profiles_row :: row where
  "profiles_row = [(js ''id'', VNum 7), (js ''email'', VStr (js ''a@b.c''))]"

definition example_catalog :: "CatalogRow list" where
  "example_catalog =
     [\<lparr> table_name = js ''orders'', rls_enabled = True \<rparr>,
      \<lparr> table_name = js ''profiles'', rls_enabled = True \<rparr>,
      \<lparr> table_name = js ''user_secrets'', rls_enabled = False \<rparr>]"

definition example_read :: "jsstring \<Rightarrow> probe" where
  "example_read t =
     (if t = js ''user_secrets'' then ProbeReturns None (Some [secrets_row])
      else if t = js ''profiles'' then ProbeReturns None (Some [profiles_row])
      else if t = js ''orders'' then ProbeReturns None (Some [])
      else ProbeReturns (Some (Error (js ''relation does not exist''))) None)"

definition clients_ok :: "jsstring \<Rightarrow> jsstring \<Rightarrow> js_error option" where
  "clients_ok url key = None"

definition catalog_answer :: "CatalogRow list \<Rightarrow> jsstring \<Rightarrow> jsstring \<Rightarrow> CatalogRow list fetched" where
  "catalog_answer rows accessToken projectRef = Resolved (Response True 200 (Inr []) (Inr rows))"

definition catalog_denied :: "jsstring \<Rightarrow> jsstring \<Rightarrow> CatalogRow list fetched" where
  "catalog_denied accessToken projectRef =
     Resolved (Response False 403 (Inr (js ''forbidden'')) (Inl (Error (js ''Unexpected token''))))"

text \<open>A target whose catalog request is rejected with an error that has no message.\<close>

definition catalog_silent :: "jsstring \<Rightarrow> jsstring \<Rightarrow> CatalogRow list fetched" where
  "catalog_silent accessToken projectRef = Rejected (Error [])"

definition classifier_down :: "jsstring \<Rightarrow> jsstring list \<Rightarrow> row \<Rightarrow> bool \<Rightarrow> ai_reply" where
  "classifier_down tableName flds sampleData rlsEnabled = AIRejects (Error (js ''Connection error.''))"

definition parse_nothing :: "jsstring \<Rightarrow> AIAnalysis option" where
  "parse_nothing s = None"

definition example_target :: "nat list \<Rightarrow> env" where
  "example_target order =
     \<lparr> createClient = clients_ok, ANTHROPIC_API_KEY = None,
       management_api = catalog_answer example_catalog, anon_select = example_read,
       messages_create = classifier_down, JSON_parse = parse_nothing,
       completion_order = order \<rparr>"

definition unreachable_target :: env where
  "unreachable_target = (example_target [])\<lparr> management_api := catalog_denied \<rparr>"

definition silent_target :: env where
  "silent_target = (example_target [])\<lparr> management_api := catalog_silent \<rparr>"

definition empty_target :: env where
  "empty_target = (example_target [])\<lparr> management_api := catalog_answer [] \<rparr>"

text \<open>The same target with an API key for the classifier, whose service is down.\<close>

definition configured_target :: env where
  "configured_target = (example_target [])\<lparr> ANTHROPIC_API_KEY := Some (js ''sk-ant'') \<rparr>"

text \<open>A target with twelve protected tables, named \<open>a\<close> to \<open>l\<close>.\<close>

definition wide_catalog :: "CatalogRow list" where
  "wide_catalog = map (\<lambda>c. \<lparr> table_name = [c], rls_enabled = True \<rparr>) (js ''abcdefghijkl'')"

definition wide_target :: "nat list \<Rightarrow> env" where
  "wide_target order = (example_target order)\<lparr> management_api := catalog_answer wide_catalog \<rparr>"

definition fifty_tables :: Options where
  "fifty_tables = \<lparr> maxTables = Some 50, enableAI = Some True \<rparr>"

definition default_options :: Options where
  "default_options = \<lparr> maxTables = None, enableAI = None \<rparr>"

section \<open>Properties of the encodings\<close>

lemma byte_bound: "unat (b :: byte) < 256"
  using unsigned_less [of b, where ?'a = nat] by simp

lemma unit_bound: "unat (u :: 16 word) < 65536"
  using unsigned_less [of u, where ?'a = nat] by simp

lemma unat_byte_of_nat: "n < 256 \<Longrightarrow> unat (of_nat n :: byte) = n"
  by (simp add: unat_of_nat)

lemma unat_unit_of_nat: "n < 65536 \<Longrightarrow> unat (of_nat n :: 16 word) = n"
  by (simp add: unat_of_nat)

lemma unat_hex_digit: "n < 16 \<Longrightarrow> unat (hex_digit n) = (if n < 10 then 48 + n else 87 + n)"
  using unat_unit_of_nat [of "48 + n"] unat_unit_of_nat [of "87 + n"]
  by (simp add: hex_digit_def del: of_nat_add)

lemma hex_value_digit: "n < 16 \<Longrightarrow> hex_value (hex_digit n) = Some n"
  by (simp add: hex_value_def unat_hex_digit Let_def)

lemma hex_decode_encode: "hex_decode (hex_encode bs) = bs"
proof (induction bs)
  case Nil
  show ?case by (simp add: hex_encode_def)
next
  case (Cons b bs)
  have "unat b div 16 < 16"
    using byte_bound [of b] by simp
  then have a: "hex_value (hex_digit (unat b div 16)) = Some (unat b div 16)"
    by (rule hex_value_digit)
  have c: "hex_value (hex_digit (unat b mod 16)) = Some (unat b mod 16)"
    by (rule hex_value_digit) simp
  have "(of_nat (16 * (unat b div 16) + unat b mod 16) :: byte) = b"
    by simp
  with a c Cons show ?case
    by (simp add: hex_encode_def)
qed

lemma unat_base64_char:
  "n < 64 \<Longrightarrow> unat (base64_char n)
     = (if n < 26 then 65 + n else if n < 52 then 71 + n else if n < 62 then n - 4
        else if n = 62 then 43 else 47)"
  using unat_unit_of_nat [of "65 + n"] unat_unit_of_nat [of "71 + n"] unat_unit_of_nat [of "n - 4"]
  by (simp add: base64_char_def del: of_nat_add of_nat_diff)

lemma base64_value_char: "n < 64 \<Longrightarrow> base64_value (base64_char n) = Some n"
  by (auto simp: base64_value_def unat_base64_char Let_def)

lemma base64_char_not_pad: "n < 64 \<Longrightarrow> unat (base64_char n) mod 256 \<noteq> 61"
  by (auto simp: unat_base64_char)

lemma base64_sextets_char:
  "n < 64 \<Longrightarrow> base64_sextets (base64_char n # cs) = n # base64_sextets cs"
  by (simp add: base64_value_char base64_char_not_pad)

lemma sextets_sum:
  fixes n :: nat
  shows "(n div 262144) * 262144 + (n div 4096 mod 64) * 4096 + (n div 64 mod 64) * 64 + n mod 64 = n"
proof -
  define q1 where "q1 = n div 64"
  define q2 where "q2 = q1 div 64"
  define q3 where "q3 = q2 div 64"
  define r0 where "r0 = n mod 64"
  define r1 where "r1 = q1 mod 64"
  define r2 where "r2 = q2 mod 64"
  have a: "n div 4096 = q2" and b: "n div 262144 = q3"
    by (simp_all add: q1_def q2_def q3_def div_mult2_eq)
  have "n = q1 * 64 + r0" "q1 = q2 * 64 + r1" "q2 = q3 * 64 + r2"
    by (simp_all add: q1_def q2_def q3_def r0_def r1_def r2_def)
  then have "q3 * 262144 + r2 * 4096 + r1 * 64 + r0 = n"
    by linarith
  then show ?thesis
    by (simp add: a b q1_def [symmetric] r0_def [symmetric] r1_def [symmetric] r2_def [symmetric])
qed

lemma three_bytes_high:
  fixes a b c :: nat
  assumes "b < 256" "c < 256"
  shows "(a * 65536 + b * 256 + c) div 65536 = a"
  using assms by (intro div_nat_eqI) simp_all

lemma three_bytes_mid:
  fixes a b c :: nat
  assumes "b < 256" "c < 256"
  shows "(a * 65536 + b * 256 + c) div 256 mod 256 = b"
proof -
  have "(a * 65536 + b * 256 + c) div 256 = a * 256 + b"
    using assms by (intro div_nat_eqI) simp_all
  moreover have "(a * 256 + b) mod 256 = b"
    using assms by simp
  ultimately show ?thesis by simp
qed

lemma three_bytes_low:
  fixes a b c :: nat
  assumes "c < 256"
  shows "(a * 65536 + b * 256 + c) mod 256 = c"
proof -
  have e: "a * 65536 + b * 256 + c = (a * 256 + b) * 256 + c" by simp
  have "(a * 65536 + b * 256 + c) mod 256 = ((a * 256 + b) * 256 + c) mod 256"
    by (simp only: e)
  also have "\<dots> = c mod 256" by (rule mod_mult_self3)
  also have "\<dots> = c" using assms by simp
  finally show ?thesis .
qed

lemma three_bytes_bound:
  fixes a b c :: nat
  assumes "a < 256" "b < 256" "c < 256"
  shows "(a * 65536 + b * 256 + c) div 262144 < 64"
proof -
  have "a * 65536 + b * 256 + c < 64 * 262144"
    using assms by simp
  then show ?thesis
    by (simp add: less_mult_imp_div_less)
qed

lemma base64_pack_group:
  assumes "a < 256" "b < 256" "c < 256"
  defines "n \<equiv> a * 65536 + b * 256 + c"
  shows "base64_pack (n div 262144 # n div 4096 mod 64 # n div 64 mod 64 # n mod 64 # ss)
       = of_nat a # of_nat b # of_nat c # base64_pack ss"
proof -
  have "(n div 262144) * 262144 + (n div 4096 mod 64) * 4096 + (n div 64 mod 64) * 64 + n mod 64 = n"
    by (rule sextets_sum)
  moreover have "n div 65536 = a" "n div 256 mod 256 = b" "n mod 256 = c"
    unfolding n_def using assms(1-3)
    by (simp_all only: three_bytes_high three_bytes_mid three_bytes_low)
  ultimately show ?thesis
    by (simp only: base64_pack.simps Let_def)
qed

lemma base64_decode_encode: "base64_decode (base64_encode bs) = bs"
proof (induction bs rule: base64_encode.induct)
  case (1 a b c rest)
  define n where "n = unat a * 65536 + unat b * 256 + unat c"
  have s: "n div 262144 < 64" "n div 4096 mod 64 < 64" "n div 64 mod 64 < 64" "n mod 64 < 64"
    unfolding n_def using three_bytes_bound [OF byte_bound byte_bound byte_bound, of a b c]
    by simp_all
  have "base64_sextets (base64_encode (a # b # c # rest))
      = n div 262144 # n div 4096 mod 64 # n div 64 mod 64 # n mod 64
        # base64_sextets (base64_encode rest)"
    using s by (simp add: n_def [symmetric] Let_def base64_value_char base64_char_not_pad)
  moreover have "base64_pack (n div 262144 # n div 4096 mod 64 # n div 64 mod 64 # n mod 64
        # base64_sextets (base64_encode rest))
      = of_nat (unat a) # of_nat (unat b) # of_nat (unat c)
        # base64_pack (base64_sextets (base64_encode rest))"
    unfolding n_def by (rule base64_pack_group) (rule byte_bound)+
  ultimately show ?case
    using 1 by (simp add: base64_decode_def)
next
  case (2 a b)
  define n where "n = unat a * 65536 + unat b * 256"
  have n0: "n = unat a * 65536 + unat b * 256 + 0"
    by (simp add: n_def)
  have s: "n div 262144 < 64" "n div 4096 mod 64 < 64" "n div 64 mod 64 < 64"
    unfolding n0 using three_bytes_bound [OF byte_bound byte_bound, of 0 a b]
    by simp_all
  have "n = (unat a * 1024 + unat b * 4) * 64"
    by (simp add: n_def)
  then have z: "n mod 64 = 0"
    by (simp only: mod_mult_self2_is_0)
  have "base64_sextets (base64_encode [a, b])
      = [n div 262144, n div 4096 mod 64, n div 64 mod 64]"
    using s by (simp add: n_def [symmetric] Let_def base64_value_char base64_char_not_pad)
  moreover have "(n div 262144) * 262144 + (n div 4096 mod 64) * 4096 + (n div 64 mod 64) * 64 = n"
    using sextets_sum [of n] z by simp
  moreover have "n div 65536 = unat a" "n div 256 mod 256 = unat b"
    unfolding n0 using byte_bound [of b]
    by (simp_all only: three_bytes_high three_bytes_mid zero_less_numeral)
  ultimately show ?case
    by (simp add: base64_decode_def Let_def)
next
  case (3 a)
  define n where "n = unat a * 65536"
  have n0: "n = unat a * 65536 + 0 * 256 + 0"
    by (simp add: n_def)
  have s: "n div 262144 < 64" "n div 4096 mod 64 < 64"
    unfolding n0 using three_bytes_bound [OF byte_bound, of 0 0 a]
    by simp_all
  have e: "n = (unat a * 1024) * 64"
    by (simp add: n_def)
  have "n div 64 = (unat a * 16) * 64"
    by (simp add: e)
  then have "n div 64 mod 64 = 0"
    by (simp only: mod_mult_self2_is_0)
  moreover from e have "n mod 64 = 0"
    by (simp only: mod_mult_self2_is_0)
  ultimately have z: "n mod 64 = 0" "n div 64 mod 64 = 0"
    by simp_all
  have "base64_sextets (base64_encode [a]) = [n div 262144, n div 4096 mod 64]"
    using s by (simp add: n_def [symmetric] Let_def base64_value_char base64_char_not_pad)
  moreover have "(n div 262144) * 262144 + (n div 4096 mod 64) * 4096 = n"
    using sextets_sum [of n] z by simp
  moreover have "n div 65536 = unat a"
    unfolding n0 by (simp only: three_bytes_high zero_less_numeral)
  ultimately show ?case
    by (simp add: base64_decode_def)
next
  case 4
  show ?case by (simp add: base64_decode_def)
qed


lemma split64:
  fixes c :: nat
  obtains q r where "c = q * 64 + r" "r < 64" "c div 64 = q" "c mod 64 = r"
  by (metis div_mult_mod_eq mod_less_divisor zero_less_numeral)

lemma utf8_decode_1:
  assumes "unat b < 0x80"
  shows "utf8_decode (b # rest) = code_units (unat b) @ utf8_decode rest"
  using assms by (simp add: code_units_def)

lemma utf8_decode_2:
  assumes "unat b1 = 0xC0 + q" "2 \<le> q" "q < 32" "unat b2 = 0x80 + r" "r < 64"
  shows "utf8_decode (b1 # b2 # rest) = code_units (q * 64 + r) @ utf8_decode rest"
  using assms by (simp add: between_def)

lemma utf8_decode_3:
  assumes "unat b1 = 0xE0 + p" "p < 16" "unat b2 = 0x80 + s" "s < 64"
    and "p = 0 \<longrightarrow> 32 \<le> s" "p = 13 \<longrightarrow> s < 32"
    and "unat b3 = 0x80 + r" "r < 64"
  shows "utf8_decode (b1 # b2 # b3 # rest) = code_units (p * 4096 + s * 64 + r) @ utf8_decode rest"
  using assms by (auto simp: between_def)

lemma utf8_decode_4:
  assumes "unat b1 = 0xF0 + t" "t \<le> 4" "unat b2 = 0x80 + p" "p < 64"
    and "t = 0 \<longrightarrow> 16 \<le> p" "t = 4 \<longrightarrow> p < 16"
    and "unat b3 = 0x80 + s" "s < 64" "unat b4 = 0x80 + r" "r < 64"
  shows "utf8_decode (b1 # b2 # b3 # b4 # rest)
       = code_units (t * 262144 + p * 4096 + s * 64 + r) @ utf8_decode rest"
  using assms by (auto simp: between_def)


lemma unat_byte_sum: "a + b < 256 \<Longrightarrow> unat (of_nat (a + b) :: byte) = a + b"
  by (rule unat_byte_of_nat)

lemma utf8_decode_bytes:
  assumes "c < 0x110000" and "\<not> (0xD800 \<le> c \<and> c \<le> 0xDFFF)"
  shows "utf8_decode (utf8_bytes c @ rest) = code_units c @ utf8_decode rest"
proof -
  consider "c < 0x80" | "0x80 \<le> c" "c < 0x800" | "0x800 \<le> c" "c < 0x10000" | "0x10000 \<le> c"
    by linarith
  then show ?thesis
  proof cases
    case 1
    then have "unat (of_nat c :: byte) = c"
      by (intro unat_byte_of_nat) simp
    with 1 utf8_decode_1 [of "of_nat c" rest] show ?thesis
      by (simp add: utf8_bytes_def)
  next
    case 2
    obtain q r where qr: "c = q * 64 + r" "r < 64" "c div 64 = q" "c mod 64 = r"
      by (rule split64)
    from 2 qr(1,2) have q: "2 \<le> q" "q < 32" by linarith+
    have "utf8_decode (of_nat (0xC0 + q) # of_nat (0x80 + r) # rest)
        = code_units (q * 64 + r) @ utf8_decode rest"
      using q qr(2) by (intro utf8_decode_2 unat_byte_sum) simp_all
    with 2 qr show ?thesis
      by (simp add: utf8_bytes_def del: of_nat_add)
  next
    case 3
    obtain q r where qr: "c = q * 64 + r" "r < 64" "c div 64 = q" "c mod 64 = r"
      by (rule split64)
    obtain p s where ps: "q = p * 64 + s" "s < 64" "q div 64 = p" "q mod 64 = s"
      by (rule split64)
    have d: "c div 4096 = p"
      using qr(3) ps(3) by (simp add: div_mult2_eq [of c 64 64, simplified])
    from 3 qr(1,2) ps(1,2) have p: "p < 16" by linarith
    from 3 qr(1,2) ps(1,2) have p0: "p = 0 \<longrightarrow> 32 \<le> s" by auto
    from assms(2) qr(1,2) ps(1,2) have p13: "p = 13 \<longrightarrow> s < 32" by auto
    have "utf8_decode (of_nat (0xE0 + p) # of_nat (0x80 + s) # of_nat (0x80 + r) # rest)
        = code_units (p * 4096 + s * 64 + r) @ utf8_decode rest"
      using p p0 p13 ps(2) qr(2) by (intro utf8_decode_3 unat_byte_sum) simp_all
    moreover have "p * 4096 + s * 64 + r = c"
      using qr(1) ps(1) by simp
    ultimately show ?thesis
      using 3 qr ps d by (simp add: utf8_bytes_def del: of_nat_add)
  next
    case 4
    obtain q r where qr: "c = q * 64 + r" "r < 64" "c div 64 = q" "c mod 64 = r"
      by (rule split64)
    obtain q' s where qs: "q = q' * 64 + s" "s < 64" "q div 64 = q'" "q mod 64 = s"
      by (rule split64)
    obtain t p where tp: "q' = t * 64 + p" "p < 64" "q' div 64 = t" "q' mod 64 = p"
      by (rule split64)
    have d1: "c div 4096 = q'"
      using qr(3) qs(3) by (simp add: div_mult2_eq [of c 64 64, simplified])
    have d2: "c div 262144 = t"
      using d1 tp(3) by (simp add: div_mult2_eq [of c 4096 64, simplified])
    from assms(1) qr(1,2) qs(1,2) tp(1,2) have t: "t \<le> 4" by linarith
    from 4 qr(1,2) qs(1,2) tp(1,2) have t0: "t = 0 \<longrightarrow> 16 \<le> p" by auto
    from assms(1) qr(1,2) qs(1,2) tp(1,2) have t4: "t = 4 \<longrightarrow> p < 16" by auto
    have "utf8_decode (of_nat (0xF0 + t) # of_nat (0x80 + p) # of_nat (0x80 + s)
            # of_nat (0x80 + r) # rest)
        = code_units (t * 262144 + p * 4096 + s * 64 + r) @ utf8_decode rest"
      using t t0 t4 tp(2) qs(2) qr(2) by (intro utf8_decode_4 unat_byte_sum) simp_all
    moreover have "t * 262144 + p * 4096 + s * 64 + r = c"
      using qr(1) qs(1) tp(1) by simp
    ultimately show ?thesis
      using 4 qr qs tp d1 d2 by (simp add: utf8_bytes_def del: of_nat_add)
  qed
qed


lemma code_units_unit:
  assumes "\<not> is_high_surrogate u" "\<not> is_low_surrogate u"
  shows "utf8_decode (utf8_bytes (unat u) @ rest) = u # utf8_decode rest"
proof -
  have "unat u < 0x110000"
    using unit_bound [of u] by simp
  moreover have "\<not> (0xD800 \<le> unat u \<and> unat u \<le> 0xDFFF)"
    using assms by (auto simp: is_high_surrogate_def is_low_surrogate_def)
  ultimately have "utf8_decode (utf8_bytes (unat u) @ rest) = code_units (unat u) @ utf8_decode rest"
    by (rule utf8_decode_bytes)
  moreover have "code_units (unat u) = [u]"
    using unit_bound [of u] by (simp add: code_units_def)
  ultimately show ?thesis by simp
qed

lemma code_units_pair:
  assumes "is_high_surrogate u" "is_low_surrogate v"
  shows "utf8_decode (utf8_bytes (0x10000 + (unat u - 0xD800) * 1024 + (unat v - 0xDC00)) @ rest)
       = u # v # utf8_decode rest"
proof -
  define h where "h = unat u - 0xD800"
  define l where "l = unat v - 0xDC00"
  have h: "h < 1024" "unat u = 0xD800 + h" and l: "l < 1024" "unat v = 0xDC00 + l"
    using assms by (auto simp: h_def l_def is_high_surrogate_def is_low_surrogate_def)
  let ?c = "0x10000 + h * 1024 + l"
  have "?c < 0x110000" and "\<not> (0xD800 \<le> ?c \<and> ?c \<le> 0xDFFF)"
    using h(1) l(1) by simp_all
  then have "utf8_decode (utf8_bytes ?c @ rest) = code_units ?c @ utf8_decode rest"
    by (rule utf8_decode_bytes)
  moreover have "(?c - 0x10000) div 1024 = h" "(?c - 0x10000) mod 1024 = l"
    using l(1) by simp_all
  then have "code_units ?c = [of_nat (0xD800 + h), of_nat (0xDC00 + l)]"
    by (simp add: code_units_def del: of_nat_add)
  moreover have "(of_nat (0xD800 + h) :: 16 word) = u" "(of_nat (0xDC00 + l) :: 16 word) = v"
    using h(2) [symmetric] l(2) [symmetric] by (simp_all del: of_nat_add)
  ultimately show ?thesis
    by (simp add: h_def l_def)
qed

lemma utf8_decode_encode: "well_formed s \<Longrightarrow> utf8_decode (utf8_encode s) = s"
proof (induction s rule: utf8_encode.induct)
  case 1
  show ?case by simp
next
  case (2 u)
  then show ?case
    using code_units_unit [of u "[]"] by simp
next
  case (3 u v us)
  show ?case
  proof (cases "is_high_surrogate u")
    case True
    with "3.prems" have v: "is_low_surrogate v" and w: "well_formed us"
      by simp_all
    from "3.IH"(1) [OF True v w] code_units_pair [OF True v, of "utf8_encode us"] True v
    show ?thesis by simp
  next
    case False
    with "3.prems" have u: "\<not> is_low_surrogate u" and w: "well_formed (v # us)"
      by simp_all
    from "3.IH"(4) [OF False u w] code_units_unit [OF False u, of "utf8_encode (v # us)"] False u
    show ?thesis by simp
  qed
qed

lemma utf8_encode_nonempty: "s \<noteq> [] \<Longrightarrow> utf8_encode s \<noteq> []"
  by (cases s rule: utf8_encode.cases)
     (auto simp: utf8_bytes_def replacement_bytes_def)

section \<open>Properties of the credential vault\<close>

lemma ctr_xor_length [simp]: "length (ctr_xor C key iv data) = length data"
  by (simp add: ctr_xor_def)

lemma ctr_xor_twice: "ctr_xor C key iv (ctr_xor C key iv data) = data"
proof (rule nth_equalityI)
  show "length (ctr_xor C key iv (ctr_xor C key iv data)) = length data"
    by simp
next
  fix i
  assume "i < length (ctr_xor C key iv (ctr_xor C key iv data))"
  then have i: "i < length data" by simp
  have "(data ! i XOR keystream C key iv i) XOR keystream C key iv i = data ! i"
    by (simp add: xor.assoc)
  with i show "ctr_xor C key iv (ctr_xor C key iv data) ! i = data ! i"
    by (simp add: ctr_xor_def)
qed

lemma tag_bytes_length [simp]: "length (tag_bytes t) = 16"
  by (simp add: tag_bytes_def)

lemma randomBytes_length [simp]: "length (randomBytes rnd n) = n"
  by (simp add: randomBytes_def)

lemma base64_encode_nonempty: "bs \<noteq> [] \<Longrightarrow> base64_encode bs \<noteq> []"
  by (cases bs rule: base64_encode.cases) (simp_all add: Let_def)

lemma blob_parts:
  assumes "length iv = 16" "length tg = 16"
  shows "slice 0 16 (iv @ ct @ tg) = iv"
    and "slice (int (length (iv @ ct @ tg)) - 16) (int (length (iv @ ct @ tg))) (iv @ ct @ tg) = tg"
    and "slice 16 (int (length (iv @ ct @ tg)) - 16) (iv @ ct @ tg) = ct"
  using assms by (simp_all add: slice_def Let_def)

lemma encrypt_result:
  assumes k: "getEncryptionKey key_text = Inr key" "length key = KEY_LENGTH" and s: "s \<noteq> []"
  shows "encrypt C key_text rnd s
     = Inr (base64_encode (randomBytes rnd IV_LENGTH
              @ ctr_xor C key (randomBytes rnd IV_LENGTH) (utf8_encode s)
              @ tag_bytes (auth_tag C key (randomBytes rnd IV_LENGTH)
                   (ctr_xor C key (randomBytes rnd IV_LENGTH) (utf8_encode s)))))"
proof -
  have "randomBytes rnd IV_LENGTH \<noteq> []"
    by (simp add: randomBytes_def IV_LENGTH_def)
  then have "createCipheriv key (randomBytes rnd IV_LENGTH) = None"
    using k(2) by (simp add: createCipheriv_def)
  with k(1) s show ?thesis
    by (simp add: encrypt_def Let_def hex_decode_encode)
qed

lemma decrypt_blob:
  assumes k: "getEncryptionKey key_text = Inr key" "length key = KEY_LENGTH"
    and iv: "length iv = IV_LENGTH"
  shows "decrypt C key_text (base64_encode (iv @ ct @ tag_bytes (auth_tag C key iv ct)))
     = Inr (utf8_decode (ctr_xor C key iv ct))"
proof -
  let ?tg = "tag_bytes (auth_tag C key iv ct)"
  let ?combined = "iv @ ct @ ?tg"
  have ne: "base64_encode ?combined \<noteq> []"
    using iv by (intro base64_encode_nonempty) (auto simp: IV_LENGTH_def)
  have l: "length iv = 16" "length ?tg = 16"
    using iv by (simp_all add: IV_LENGTH_def)
  note parts = blob_parts [OF l, of ct]
  have c: "createCipheriv key iv = None"
    using k(2) iv by (auto simp: createCipheriv_def IV_LENGTH_def)
  have t: "setAuthTag ?tg = None"
    by (simp add: setAuthTag_def)
  show ?thesis
    using ne k(1) c t parts
    by (simp add: decrypt_def Let_def base64_decode_encode hex_decode_encode
          IV_LENGTH_def TAG_LENGTH_def del: length_append)
qed

lemma round_trip_result:
  assumes "getEncryptionKey key_text = Inr key" "length key = KEY_LENGTH" "s \<noteq> []"
  shows "round_trip C key_text rnd s = Inr (utf8_decode (utf8_encode s))"
  using encrypt_result [OF assms, of C rnd]
    decrypt_blob [OF assms(1,2), of "randomBytes rnd IV_LENGTH" C
      "ctr_xor C key (randomBytes rnd IV_LENGTH) (utf8_encode s)"]
  by (simp add: round_trip_def ctr_xor_twice)

lemma hex_decode_length:
  "\<forall>c \<in> set cs. hex_value c \<noteq> None \<Longrightarrow> length (hex_decode cs) = length cs div 2"
  by (induction cs rule: hex_decode.induct) auto

lemma key_of_hex_text:
  assumes "length key_text = 64" "\<forall>c \<in> set key_text. hex_value c \<noteq> None"
  shows "getEncryptionKey (Some key_text) = Inr (hex_decode key_text)"
    and "length (hex_decode key_text) = KEY_LENGTH"
  using assms hex_decode_length [of key_text]
  by (auto simp: getEncryptionKey_def KEY_LENGTH_def)

text \<open>
  Tampering with a sealed blob. \<open>decrypt\<close> hands the three parts of the blob to the
  cipher as they are: a flipped bit in the tag is always rejected, and a flipped bit in
  the ciphertext is rejected exactly when the tag that the cipher computes changes
  with it.
\<close>

lemma flip_bit_length [simp]: "length (flip_bit p j bs) = length bs"
  by (simp add: flip_bit_def)

lemma flip_bit_changes:
  assumes "p < length bs" "j < 8"
  shows "flip_bit p j bs \<noteq> bs"
proof
  assume "flip_bit p j bs = bs"
  then have "flip_bit p j bs ! p = bs ! p" by simp
  with assms(1) have "(bs ! p) XOR push_bit j 1 = bs ! p"
    by (simp add: flip_bit_def)
  then have "(bs ! p) XOR ((bs ! p) XOR push_bit j 1) = (bs ! p) XOR (bs ! p)"
    by simp
  then have "push_bit j (1 :: byte) = 0"
    by (simp flip: xor.assoc)
  with assms(2) show False
    by (simp add: push_bit_of_1)
qed

lemma decrypt_parts:
  assumes k: "getEncryptionKey key_text = Inr key" "length key = KEY_LENGTH"
    and iv: "length iv = IV_LENGTH" and tg: "length tg = TAG_LENGTH"
  shows "decrypt C key_text (base64_encode (iv @ ct @ tg))
     = (if tag_bytes (auth_tag C key iv ct) = tg
        then Inr (utf8_decode (ctr_xor C key iv ct)) else Inl integrity_error)"
proof -
  let ?combined = "iv @ ct @ tg"
  have ne: "base64_encode ?combined \<noteq> []"
    using iv by (intro base64_encode_nonempty) (auto simp: IV_LENGTH_def)
  have l: "length iv = 16" "length tg = 16"
    using iv tg by (simp_all add: IV_LENGTH_def TAG_LENGTH_def)
  note parts = blob_parts [OF l, of ct]
  have c: "createCipheriv key iv = None"
    using k(2) iv by (auto simp: createCipheriv_def IV_LENGTH_def)
  have t: "setAuthTag tg = None"
    using l(2) by (simp add: setAuthTag_def)
  show ?thesis
    using ne k(1) c t parts l(2)
    by (simp add: decrypt_def Let_def base64_decode_encode hex_decode_encode
          IV_LENGTH_def TAG_LENGTH_def del: length_append)
qed

lemma flipped_tag_rejected:
  assumes "getEncryptionKey key_text = Inr key" "length key = KEY_LENGTH"
    and "length iv = IV_LENGTH" and "p < TAG_LENGTH" "j < 8"
  shows "decrypt C key_text
           (base64_encode (iv @ ct @ flip_bit p j (tag_bytes (auth_tag C key iv ct))))
         = Inl integrity_error"
proof -
  have "flip_bit p j (tag_bytes (auth_tag C key iv ct)) \<noteq> tag_bytes (auth_tag C key iv ct)"
    using assms(4,5) by (intro flip_bit_changes) (simp_all add: TAG_LENGTH_def)
  then show ?thesis
    using decrypt_parts [OF assms(1-3), of "flip_bit p j (tag_bytes (auth_tag C key iv ct))" C ct]
    by (simp add: TAG_LENGTH_def)
qed

lemma flipped_ciphertext_rejected_iff:
  assumes "getEncryptionKey key_text = Inr key" "length key = KEY_LENGTH"
    and "length iv = IV_LENGTH"
  shows "decrypt C key_text
           (base64_encode (iv @ flip_bit p j ct @ tag_bytes (auth_tag C key iv ct)))
         = Inl integrity_error
     \<longleftrightarrow> tag_bytes (auth_tag C key iv (flip_bit p j ct)) \<noteq> tag_bytes (auth_tag C key iv ct)"
  using decrypt_parts [OF assms, of "tag_bytes (auth_tag C key iv ct)" C "flip_bit p j ct"]
  by (simp add: TAG_LENGTH_def)

section \<open>Properties of the token manager\<close>

lemma seal_requests: "token_requests (snd (seal P s w)) = token_requests w"
  by (simp add: seal_def)

lemma seal_table: "integrations (snd (seal P s w)) = integrations w"
  by (simp add: seal_def)

lemma seal_clock: "clock (snd (seal P s w)) = clock w"
  by (simp add: seal_def)

lemma decrypt_key:
  assumes "decrypt C key_text x = Inr y"
  shows "\<exists>key. getEncryptionKey key_text = Inr key \<and> length key = KEY_LENGTH"
  using assms
  by (auto simp: decrypt_def Let_def createCipheriv_def split: if_splits sum.splits option.splits)

lemma seal_ok:
  assumes "getEncryptionKey (ENCRYPTION_KEY P) = Inr key" "length key = KEY_LENGTH" "s \<noteq> []"
  shows "seal P s w
     = (encrypt (cipher P) (ENCRYPTION_KEY P) (entropy w) s,
        w\<lparr> entropy := (\<lambda>i. entropy w (i + IV_LENGTH)) \<rparr>)"
    and "\<not> isl (encrypt (cipher P) (ENCRYPTION_KEY P) (entropy w) s)"
  using assms encrypt_result [OF assms, of "cipher P" "entropy w"]
  by (simp_all add: seal_def)

lemma seal_fails: "fst (seal P [] w) = Inl (Error (js ''Cannot encrypt empty string''))"
  by (simp add: seal_def encrypt_def)

lemma storeTokens_world:
  "token_requests (snd (storeTokens P userId tokens integrationId w)) = token_requests w
   \<and> (isl (fst (storeTokens P userId tokens integrationId w)) \<longrightarrow>
        integrations (snd (storeTokens P userId tokens integrationId w)) = integrations w)"
proof -
  obtain r1 w1 where s1: "seal P (access_token tokens) w = (r1, w1)"
    by (cases "seal P (access_token tokens) w")
  obtain r2 w2 where s2: "seal P (refresh_token tokens) w1 = (r2, w2)"
    by (cases "seal P (refresh_token tokens) w1")
  have w1: "token_requests w1 = token_requests w" "integrations w1 = integrations w"
    using seal_requests [of P "access_token tokens" w] seal_table [of P "access_token tokens" w] s1
    by simp_all
  have w2: "token_requests w2 = token_requests w" "integrations w2 = integrations w"
    using seal_requests [of P "refresh_token tokens" w1] seal_table [of P "refresh_token tokens" w1]
      s2 w1
    by simp_all
  show ?thesis
  proof (cases r1)
    case (Inl e)
    with s1 w1 show ?thesis by (simp add: storeTokens_def)
  next
    case a: (Inr sa)
    show ?thesis
    proof (cases r2)
      case (Inl e)
      with s1 s2 a w2 show ?thesis by (simp add: storeTokens_def)
    next
      case b: (Inr sr)
      show ?thesis
      proof (cases "toISOString (new_Date (map_option (\<lambda>seconds. clock w2 + seconds * 1000)
                      (expires_in tokens)))")
        case (Inl e)
        with s1 s2 a b w2 show ?thesis by (simp add: storeTokens_def)
      next
        case x: (Inr t)
        show ?thesis
        proof (cases "truthy integrationId")
          case True
          with s1 s2 a b x w2 show ?thesis
            by (cases "write_error P UpdateRow") (simp_all add: storeTokens_def)
        next
          case False
          with s1 s2 a b x w2 show ?thesis
            by (cases "write_error P UpsertRow") (simp_all add: storeTokens_def)
        qed
      qed
    qed
  qed
qed

lemma storeTokens_requests:
  "token_requests (snd (storeTokens P userId tokens integrationId w)) = token_requests w"
  using storeTokens_world [of P userId tokens integrationId w] by simp

lemma expiry_in_range:
  "toISOString (new_Date (map_option (\<lambda>seconds. now + seconds * 1000) lifetime)) = Inr t
     \<longleftrightarrow> (\<exists>s. lifetime = Some s \<and> t = now + s * 1000 \<and> \<bar>now + s * 1000\<bar> \<le> 8640000000000000)"
  by (cases lifetime) (auto simp: toISOString_def new_Date_def)

lemma expiry_out_of_range:
  "toISOString (new_Date (map_option (\<lambda>seconds. now + seconds * 1000) lifetime)) = Inl e
     \<longleftrightarrow> e = Error (js ''Invalid time value'')
         \<and> \<not> (\<exists>s. lifetime = Some s \<and> \<bar>now + s * 1000\<bar> \<le> 8640000000000000)"
  by (cases lifetime) (auto simp: toISOString_def new_Date_def)

lemma storeTokens_update:
  assumes k: "getEncryptionKey (ENCRYPTION_KEY P) = Inr key" "length key = KEY_LENGTH"
    and t: "access_token tokens \<noteq> []" "refresh_token tokens \<noteq> []" and i: "integrationId \<noteq> []"
    and e: "expires_in tokens = Some s" "\<bar>clock w + s * 1000\<bar> \<le> 8640000000000000"
    and d: "write_error P UpdateRow = None"
  shows "\<exists>sealedAccess sealedRefresh.
      encrypt (cipher P) (ENCRYPTION_KEY P) (entropy w) (access_token tokens) = Inr sealedAccess
      \<and> encrypt (cipher P) (ENCRYPTION_KEY P) (\<lambda>i. entropy w (i + IV_LENGTH)) (refresh_token tokens)
          = Inr sealedRefresh
      \<and> fst (storeTokens P userId tokens (Some integrationId) w) = Inr ()
      \<and> integrations (snd (storeTokens P userId tokens (Some integrationId) w))
          = map (\<lambda>r. if integration_id r = integrationId
                      then r\<lparr> sealed_access_token := sealedAccess,
                             sealed_refresh_token := sealedRefresh,
                             token_expires_at := clock w + s * 1000,
                             updated_at := clock w \<rparr>
                      else r) (integrations w)"
proof -
  let ?w1 = "w\<lparr> entropy := (\<lambda>i. entropy w (i + IV_LENGTH)) \<rparr>"
  from encrypt_result [OF k t(1), of "cipher P" "entropy w"] obtain sa where
    sa: "encrypt (cipher P) (ENCRYPTION_KEY P) (entropy w) (access_token tokens) = Inr sa"
    by blast
  from encrypt_result [OF k t(2), of "cipher P" "entropy ?w1"] obtain sr where
    sr: "encrypt (cipher P) (ENCRYPTION_KEY P) (entropy ?w1) (refresh_token tokens) = Inr sr"
    by blast
  have s1: "seal P (access_token tokens) w = (Inr sa, ?w1)"
    using seal_ok(1) [OF k t(1), of w] sa by simp
  have s2: "seal P (refresh_token tokens) ?w1
      = (Inr sr, ?w1\<lparr> entropy := (\<lambda>i. entropy ?w1 (i + IV_LENGTH)) \<rparr>)"
    using seal_ok(1) [OF k t(2), of ?w1] sr by simp
  have x: "toISOString (new_Date (Some (clock w + s * 1000))) = Inr (clock w + s * 1000)"
    using e(2) by (simp add: toISOString_def new_Date_def)
  from sa sr s1 s2 i e(1) x d show ?thesis
    by (simp add: storeTokens_def Let_def truthy_def)
qed

lemma storeTokens_success:
  assumes "fst (storeTokens P userId tokens (Some integrationId) w) = Inr u"
    and "integrationId \<noteq> []"
  shows "access_token tokens \<noteq> [] \<and> refresh_token tokens \<noteq> []
     \<and> (\<exists>s. expires_in tokens = Some s \<and> \<bar>clock w + s * 1000\<bar> \<le> 8640000000000000)
     \<and> write_error P UpdateRow = None"
proof -
  obtain r1 w1 where s1: "seal P (access_token tokens) w = (r1, w1)"
    by (cases "seal P (access_token tokens) w")
  obtain r2 w2 where s2: "seal P (refresh_token tokens) w1 = (r2, w2)"
    by (cases "seal P (refresh_token tokens) w1")
  from assms(1) s1 obtain sa where r1: "r1 = Inr sa"
    by (cases r1) (simp_all add: storeTokens_def)
  from assms(1) s1 s2 r1 obtain sr where r2: "r2 = Inr sr"
    by (cases r2) (simp_all add: storeTokens_def)
  have c: "clock w2 = clock w"
    using seal_clock [of P "access_token tokens" w] seal_clock [of P "refresh_token tokens" w1] s1 s2
    by simp
  from s1 r1 have a: "access_token tokens \<noteq> []"
    using seal_fails [of P w] by auto
  from s2 r2 have b: "refresh_token tokens \<noteq> []"
    using seal_fails [of P w1] by auto
  obtain x where x: "toISOString (new_Date (map_option (\<lambda>seconds. clock w + seconds * 1000)
        (expires_in tokens))) = x"
    by simp
  from assms s1 s2 r1 r2 c x obtain t where t: "x = Inr t"
    by (cases x) (simp_all add: storeTokens_def Let_def)
  from x t have e: "\<exists>s. expires_in tokens = Some s \<and> \<bar>clock w + s * 1000\<bar> \<le> 8640000000000000"
    by (auto simp: expiry_in_range)
  from assms s1 s2 r1 r2 c x t have "write_error P UpdateRow = None"
    by (cases "write_error P UpdateRow") (simp_all add: storeTokens_def Let_def truthy_def)
  with a b e show ?thesis by simp
qed

lemma storeTokens_failure:
  assumes "fst (storeTokens P userId tokens integrationId w) = Inl e"
  shows "integrations (snd (storeTokens P userId tokens integrationId w)) = integrations w"
  using storeTokens_world [of P userId tokens integrationId w] assms by simp


lemma storeTokens_range_error:
  assumes k: "getEncryptionKey (ENCRYPTION_KEY P) = Inr key" "length key = KEY_LENGTH"
    and t: "access_token tokens \<noteq> []" "refresh_token tokens \<noteq> []"
    and e: "\<not> (\<exists>s. expires_in tokens = Some s \<and> \<bar>clock w + s * 1000\<bar> \<le> 8640000000000000)"
  shows "fst (storeTokens P userId tokens integrationId w) = Inl (Error (js ''Invalid time value''))"
proof -
  let ?w1 = "w\<lparr> entropy := (\<lambda>i. entropy w (i + IV_LENGTH)) \<rparr>"
  from encrypt_result [OF k t(1), of "cipher P" "entropy w"] obtain sa where
    sa: "encrypt (cipher P) (ENCRYPTION_KEY P) (entropy w) (access_token tokens) = Inr sa"
    by blast
  from encrypt_result [OF k t(2), of "cipher P" "entropy ?w1"] obtain sr where
    sr: "encrypt (cipher P) (ENCRYPTION_KEY P) (entropy ?w1) (refresh_token tokens) = Inr sr"
    by blast
  have s1: "seal P (access_token tokens) w = (Inr sa, ?w1)"
    using seal_ok(1) [OF k t(1), of w] sa by simp
  have s2: "seal P (refresh_token tokens) ?w1
      = (Inr sr, ?w1\<lparr> entropy := (\<lambda>i. entropy ?w1 (i + IV_LENGTH)) \<rparr>)"
    using seal_ok(1) [OF k t(2), of ?w1] sr by simp
  have x: "toISOString (new_Date (map_option (\<lambda>seconds. clock w + seconds * 1000)
        (expires_in tokens))) = Inl (Error (js ''Invalid time value''))"
    using e by (simp add: expiry_out_of_range)
  from s1 s2 x show ?thesis
    by (simp add: storeTokens_def Let_def)
qed

lemma refresh_requests:
  assumes "filter (\<lambda>r. integration_id r = integrationId) (integrations w) = [integration]"
    and "decrypt (cipher P) (ENCRYPTION_KEY P) (sealed_refresh_token integration) = Inr refreshToken"
  shows "token_requests (snd (refreshAccessToken P integrationId w))
       = token_requests w @ [refreshToken]"
proof -
  let ?w1 = "w\<lparr> token_requests := token_requests w @ [refreshToken] \<rparr>"
  have st: "token_requests (snd (storeTokens P u t i ?w1)) = token_requests w @ [refreshToken]"
    for u t i
    by (simp add: storeTokens_requests)
  show ?thesis
  proof (cases "token_endpoint P refreshToken")
    case (Rejected e)
    with assms show ?thesis
      by (simp add: refreshAccessToken_def single_def)
  next
    case (Resolved response)
    show ?thesis
    proof (cases "ok response")
      case False
      show ?thesis
      proof (cases "body_text response")
        case (Inl e)
        with False Resolved assms show ?thesis
          by (simp add: refreshAccessToken_def single_def)
      next
        case (Inr errorText)
        with False Resolved assms show ?thesis
          by (cases "write_error P DeleteRow") (simp_all add: refreshAccessToken_def single_def)
      qed
    next
      case True
      show ?thesis
      proof (cases "body_json response")
        case (Inl e)
        with True Resolved assms show ?thesis
          by (simp add: refreshAccessToken_def single_def)
      next
        case (Inr tokens)
        obtain x w2 where x: "storeTokens P (user_id integration) tokens (Some integrationId) ?w1 = (x, w2)"
          by (cases "storeTokens P (user_id integration) tokens (Some integrationId) ?w1")
        with st [of "user_id integration" tokens "Some integrationId"]
        have "token_requests w2 = token_requests w @ [refreshToken]"
          by simp
        with x Inr True Resolved assms show ?thesis
          by (cases x) (simp_all add: refreshAccessToken_def single_def)
      qed
    qed
  qed
qed

lemma example_key_bytes:
  "getEncryptionKey (Some example_key) = Inr (hex_decode example_key)"
  "length (hex_decode example_key) = KEY_LENGTH"
proof -
  have "length example_key = 64"
    by (simp add: example_key_def js_def)
  moreover have "\<forall>c \<in> set example_key. hex_value c \<noteq> None"
    by (simp add: example_key_def js_def hex_value_def)
  ultimately show "getEncryptionKey (Some example_key) = Inr (hex_decode example_key)"
    and "length (hex_decode example_key) = KEY_LENGTH"
    by (rule key_of_hex_text)+
qed

lemma example_sealed_opens:
  assumes "s \<noteq> []" "well_formed s"
  shows "decrypt example_gcm (Some example_key) (example_sealed s) = Inr s"
proof -
  from round_trip_result [OF example_key_bytes assms(1), of example_gcm example_entropy]
  have "round_trip example_gcm (Some example_key) example_entropy s = Inr s"
    using assms(2) by (simp add: utf8_decode_encode)
  moreover from encrypt_result [OF example_key_bytes assms(1), of example_gcm example_entropy]
  have "\<not> isl (encrypt example_gcm (Some example_key) example_entropy s)"
    by simp
  ultimately show ?thesis
    by (auto simp: round_trip_def example_sealed_def split: sum.splits)
qed

lemma example_tokens_open:
  "decrypt example_gcm (Some example_key) (example_sealed (js ''access-1'')) = Inr (js ''access-1'')"
  "decrypt example_gcm (Some example_key) (example_sealed (js ''refresh-1'')) = Inr (js ''refresh-1'')"
  by (rule example_sealed_opens; simp add: js_def is_high_surrogate_def is_low_surrogate_def)+

text \<open>
  A token response with a life time beyond the range of \<open>Date\<close>: the refresh throws the
  \<open>RangeError\<close> of \<open>toISOString\<close> after the token endpoint has granted the new pair, and
  the row keeps the old one.
\<close>

lemma overlong_lifetime_keeps_record:
  "fst (refreshAccessToken (example_platform endpoint_grants_forever) (js ''int-1'') (example_world 0 0))
     = Inl (Error (js ''Invalid time value''))
   \<and> integrations (snd (refreshAccessToken (example_platform endpoint_grants_forever) (js ''int-1'')
        (example_world 0 0))) = [example_row 0]"
proof -
  let ?P = "example_platform endpoint_grants_forever"
  let ?tokens = "new_tokens\<lparr> expires_in := Some 8640000000001 \<rparr>"
  let ?w1 = "(example_world 0 0)\<lparr> token_requests := token_requests (example_world 0 0) @ [js ''refresh-1''] \<rparr>"
  have k: "getEncryptionKey (ENCRYPTION_KEY ?P) = Inr (hex_decode example_key)"
    using example_key_bytes(1) by (simp add: example_platform_def)
  have t: "access_token ?tokens \<noteq> []" "refresh_token ?tokens \<noteq> []"
    by (simp_all add: new_tokens_def js_def)
  have e: "\<not> (\<exists>s. expires_in ?tokens = Some s \<and> \<bar>clock ?w1 + s * 1000\<bar> \<le> 8640000000000000)"
    by (simp add: example_world_def)
  have f: "fst (storeTokens ?P (js ''user-1'') ?tokens (Some (js ''int-1'')) ?w1)
      = Inl (Error (js ''Invalid time value''))"
    using k example_key_bytes(2) t e by (rule storeTokens_range_error)
  then have g: "integrations (snd (storeTokens ?P (js ''user-1'') ?tokens (Some (js ''int-1'')) ?w1))
      = integrations ?w1"
    by (rule storeTokens_failure)
  obtain x w2 where x: "storeTokens ?P (js ''user-1'') ?tokens (Some (js ''int-1'')) ?w1 = (x, w2)"
    by (cases "storeTokens ?P (js ''user-1'') ?tokens (Some (js ''int-1'')) ?w1")
  have d: "decrypt (cipher ?P) (ENCRYPTION_KEY ?P) (sealed_refresh_token (example_row 0))
      = Inr (js ''refresh-1'')"
    by (simp add: example_platform_def example_row_def example_tokens_open)
  have r: "refreshAccessToken ?P (js ''int-1'') (example_world 0 0)
      = (case storeTokens ?P (js ''user-1'') ?tokens (Some (js ''int-1'')) ?w1 of
           (Inl e, w2) \<Rightarrow> (Inl e, w2)
         | (Inr u, w2) \<Rightarrow> (Inr ?tokens, w2))"
    using d
    by (simp add: refreshAccessToken_def single_def Let_def example_world_def example_row_def
          example_platform_def endpoint_grants_forever_def)
  have h: "integrations ?w1 = [example_row 0]"
    by (simp add: example_world_def)
  from f g x show ?thesis
    by (simp add: r h)
qed


lemma refresh_answered:
  assumes "filter (\<lambda>r. integration_id r = integrationId) (integrations w) = [integration]"
    and "decrypt (cipher P) (ENCRYPTION_KEY P) (sealed_refresh_token integration) = Inr refreshToken"
    and "token_endpoint P refreshToken = Resolved response"
  shows "refreshAccessToken P integrationId w
      = (if \<not> ok response
         then (case body_text response of
                 Inl e \<Rightarrow> (Inl e, w\<lparr> token_requests := token_requests w @ [refreshToken] \<rparr>)
               | Inr errorText \<Rightarrow>
                   (Inl (Error (js ''Token refresh failed. Please reconnect your Supabase account.'')),
                    case write_error P DeleteRow of
                      Some msg \<Rightarrow> w\<lparr> token_requests := token_requests w @ [refreshToken] \<rparr>
                    | None \<Rightarrow>
                        w\<lparr> token_requests := token_requests w @ [refreshToken],
                           integrations :=
                             filter (\<lambda>r. integration_id r \<noteq> integrationId) (integrations w) \<rparr>))
         else (case body_json response of
                 Inl e \<Rightarrow> (Inl e, w\<lparr> token_requests := token_requests w @ [refreshToken] \<rparr>)
               | Inr tokens \<Rightarrow>
                   (case storeTokens P (user_id integration) tokens (Some integrationId)
                           (w\<lparr> token_requests := token_requests w @ [refreshToken] \<rparr>) of
                      (Inl e, w2) \<Rightarrow> (Inl e, w2)
                    | (Inr u, w2) \<Rightarrow> (Inr tokens, w2))))"
  using assms
  by (cases "write_error P DeleteRow"; cases "body_text response")
     (simp_all add: refreshAccessToken_def single_def Let_def)

section \<open>Properties of the scanner\<close>

text \<open>The catalog query depends on the Management API only.\<close>

lemma executeQuery_independent:
  "executeQuery (E\<lparr>anon_select := f\<rparr>) = executeQuery E"
  "executeQuery (E\<lparr>ANTHROPIC_API_KEY := k, messages_create := mc, JSON_parse := jp\<rparr>)
     = executeQuery E"
  "executeQuery (E\<lparr>completion_order := order\<rparr>) = executeQuery E"
  by (simp_all add: executeQuery_def fun_eq_iff)

subsection \<open>One group of concurrent reads\<close>

lemma started_iff: "i \<in> started tr \<longleftrightarrow> ProbeStart i \<in> set tr"
  by (induction tr) (auto simp: started_def map_filter_simps split: event.splits)

lemma ended_iff: "i \<in> ended tr \<longleftrightarrow> ProbeEnd i \<in> set tr"
  by (induction tr) (auto simp: ended_def map_filter_simps split: event.splits)

lemma scanTable_step:
  assumes "scanTable E a m t st = (r, st')"
  shows "\<exists>f1. found st' = found st @ f1
           \<and> f1 @ (case r of None \<Rightarrow> [] | Some t' \<Rightarrow> task_findings E a m t') = task_findings E a m t"
    and "pending st' = pending st"
  using assms
  by (cases "(E, a, m, t, st)" rule: scanTable.cases;
      auto simp: Let_def scanTable_findings_def readable_row_def rls_flag_def
           split: probe.splits option.splits list.splits if_splits)+

lemma settle_findings:
  assumes "k < length ts"
  shows "mset (concat (map g (settle k r ts))) + mset (g (ts ! k))
       = mset (concat (map g ts)) + mset (case r of None \<Rightarrow> [] | Some t' \<Rightarrow> g t')"
proof -
  have a: "ts = take k ts @ ts ! k # drop (Suc k) ts"
    using assms by (rule id_take_nth_drop)
  have "mset (concat (map g ts))
      = mset (concat (map g (take k ts))) + mset (g (ts ! k)) + mset (concat (map g (drop (Suc k) ts)))"
    by (subst a) simp
  moreover have "\<And>t'. ts[k := t'] = take k ts @ t' # drop (Suc k) ts"
    using assms by (rule upd_conv_take_nth_drop)
  ultimately show ?thesis
    by (cases r) (simp_all add: settle_def)
qed

lemma promise_all_Nil [simp]: "promise_all E a m [] st = st"
  by (simp add: promise_all.simps)

lemma promise_all_step:
  assumes "ts \<noteq> []"
    and "scanTable E a m (ts ! next_choice (pending st) (length ts)) (st\<lparr>pending := tl (pending st)\<rparr>) = (r, st1)"
  shows "promise_all E a m ts st
       = promise_all E a m (settle (next_choice (pending st) (length ts)) r ts) st1"
  using assms by (subst promise_all.simps) (simp add: Let_def)

lemma promise_all_found:
  "\<exists>fs. found (promise_all E a m ts st) = found st @ fs
        \<and> mset fs = mset (concat (map (task_findings E a m) ts))"
proof (induction E a m ts st rule: promise_all.induct)
  case (1 E a m ts st)
  show ?case
  proof (cases "ts = []")
    case True
    then show ?thesis by simp
  next
    case False
    define k where "k = next_choice (pending st) (length ts)"
    define st0 where "st0 = st\<lparr>pending := tl (pending st)\<rparr>"
    obtain r st1 where step: "scanTable E a m (ts ! k) st0 = (r, st1)"
      by (cases "scanTable E a m (ts ! k) st0")
    have k: "k < length ts"
      using False by (simp add: k_def next_choice_less)
    from scanTable_step(1) [OF step] obtain f1 where
      f1: "found st1 = found st @ f1"
        "f1 @ (case r of None \<Rightarrow> [] | Some t' \<Rightarrow> task_findings E a m t') = task_findings E a m (ts ! k)"
      by (auto simp: st0_def)
    from "1.IH" [OF False k_def refl] step obtain fs where
      fs: "found (promise_all E a m (settle k r ts) st1) = found st1 @ fs"
        "mset fs = mset (concat (map (task_findings E a m) (settle k r ts)))"
      by (auto simp: st0_def)
    have unfold: "promise_all E a m ts st = promise_all E a m (settle k r ts) st1"
      using promise_all_step [OF False] step by (simp add: k_def st0_def)
    have "mset (f1 @ fs) = mset (concat (map (task_findings E a m) ts))"
    proof -
      have "mset (f1 @ fs) + mset (case r of None \<Rightarrow> [] | Some t' \<Rightarrow> task_findings E a m t')
          = mset (concat (map (task_findings E a m) (settle k r ts))) + mset (task_findings E a m (ts ! k))"
        using fs(2) f1(2) [symmetric] by simp
      also have "\<dots> = mset (concat (map (task_findings E a m) ts))
            + mset (case r of None \<Rightarrow> [] | Some t' \<Rightarrow> task_findings E a m t')"
        by (rule settle_findings [OF k])
      finally show ?thesis by simp
    qed
    with unfold fs(1) f1(1) show ?thesis
      by auto
  qed
qed

lemma started_append [simp]: "started (xs @ ys) = started xs \<union> started ys"
  by (auto simp: started_iff)

lemma ended_append [simp]: "ended (xs @ ys) = ended xs \<union> ended ys"
  by (auto simp: ended_iff)

lemma started_take: "started (take k xs) \<subseteq> started xs"
  by (auto simp: started_iff dest: in_set_takeD)

lemma started_starts [simp]: "started (map ProbeStart ns) = set ns"
  by (auto simp: started_iff)

lemma ended_starts [simp]: "ended (map ProbeStart ns) = {}"
  by (auto simp: ended_iff)

lemma scanTable_trace:
  assumes "scanTable E a m t st = (r, st')"
  shows "\<exists>evs. trace st' = trace st @ evs \<and> started evs = {}
           \<and> ended evs = probing [t] \<and> probing (case r of None \<Rightarrow> [] | Some t' \<Rightarrow> [t']) = {}"
  using assms
  by (cases "(E, a, m, t, st)" rule: scanTable.cases;
      auto simp: Let_def probing_def started_iff ended_iff
           split: probe.splits option.splits list.splits if_splits)

lemma probing_settle:
  assumes "k < length ts" and "probing (case r of None \<Rightarrow> [] | Some t' \<Rightarrow> [t']) = {}"
  shows "probing (settle k r ts) \<union> probing [ts ! k] = probing ts"
proof -
  have a: "ts = take k ts @ ts ! k # drop (Suc k) ts"
    using assms(1) by (rule id_take_nth_drop)
  have b: "\<And>t'. ts[k := t'] = take k ts @ t' # drop (Suc k) ts"
    using assms(1) by (rule upd_conv_take_nth_drop)
  have c: "\<And>xs y zs. probing (xs @ y # zs) = probing xs \<union> probing [y] \<union> probing zs"
    by (auto simp: probing_def)
  have "probing ts = probing (take k ts) \<union> probing [ts ! k] \<union> probing (drop (Suc k) ts)"
    by (subst a) (rule c)
  moreover have "probing (settle k r ts) = probing (take k ts) \<union> probing (drop (Suc k) ts)"
  proof (cases r)
    case None
    then show ?thesis by (auto simp: settle_def probing_def)
  next
    case (Some t')
    with assms(2) have "probing [t'] = {}" by simp
    with Some show ?thesis by (simp add: settle_def b c)
  qed
  ultimately show ?thesis by auto
qed

lemma promise_all_trace:
  "\<exists>evs. trace (promise_all E a m ts st) = trace st @ evs
        \<and> started evs = {} \<and> ended evs = probing ts"
proof (induction E a m ts st rule: promise_all.induct)
  case (1 E a m ts st)
  show ?case
  proof (cases "ts = []")
    case True
    then show ?thesis by (simp add: probing_def started_def ended_def map_filter_simps)
  next
    case False
    define k where "k = next_choice (pending st) (length ts)"
    define st0 where "st0 = st\<lparr>pending := tl (pending st)\<rparr>"
    obtain r st1 where step: "scanTable E a m (ts ! k) st0 = (r, st1)"
      by (cases "scanTable E a m (ts ! k) st0")
    have k: "k < length ts"
      using False by (simp add: k_def next_choice_less)
    from scanTable_trace [OF step] obtain e1 where
      e1: "trace st1 = trace st @ e1" "started e1 = {}" "ended e1 = probing [ts ! k]"
        "probing (case r of None \<Rightarrow> [] | Some t' \<Rightarrow> [t']) = {}"
      by (auto simp: st0_def)
    from "1.IH" [OF False k_def refl] step obtain evs where
      evs: "trace (promise_all E a m (settle k r ts) st1) = trace st1 @ evs"
        "started evs = {}" "ended evs = probing (settle k r ts)"
      by (auto simp: st0_def)
    have unfold: "promise_all E a m ts st = promise_all E a m (settle k r ts) st1"
      using promise_all_step [OF False] step by (simp add: k_def st0_def)
    have "ended (e1 @ evs) = probing ts"
      using probing_settle [OF k e1(4)] e1(3) evs(3) by auto
    moreover have "started (e1 @ evs) = {}"
      using e1(2) evs(2) by simp
    ultimately show ?thesis
      using unfold evs(1) e1(1) by (intro exI [of _ "e1 @ evs"]) simp
  qed
qed

lemma slice_chunk: "slice (int i) (int (i + c)) xs = take c (drop i xs)"
proof -
  consider "i + c \<le> length xs" | "i \<le> length xs" "length xs < i + c" | "length xs < i"
    by linarith
  then show ?thesis
  proof cases
    case 1
    then have "nat (int i + int c) - i = c" by simp
    with 1 show ?thesis
      by (simp add: slice_def Let_def min_def)
  next
    case 2
    then have "take c (drop i xs) = drop i xs" by simp
    moreover from 2 have "take (length xs - i) (drop i xs) = drop i xs" by simp
    ultimately show ?thesis
      using 2 by (simp add: slice_def Let_def min_def)
  next
    case 3
    then show ?thesis
      by (simp add: slice_def Let_def min_def)
  qed
qed

lemma probing_started_tasks:
  "length ns = length ch \<Longrightarrow> probing (map (\<lambda>(k, t). Task k t Probing) (zip ns ch)) = set ns"
proof (induction ns ch rule: list_induct2)
  case Nil
  then show ?case by (simp add: probing_def)
next
  case (Cons x xs y ys)
  have "probing (Task x y Probing # map (\<lambda>(k, t). Task k t Probing) (zip xs ys))
      = insert x (probing (map (\<lambda>(k, t). Task k t Probing) (zip xs ys)))"
    unfolding probing_def by force
  with Cons show ?case by simp
qed

subsection \<open>The rounds of the scan\<close>

lemma in_flight_take_bound:
  assumes "started tr = ended tr" and "started q \<subseteq> S" and "finite S"
  shows "card (in_flight (tr @ q)) \<le> card S"
proof -
  have "in_flight (tr @ q) \<subseteq> S"
    using assms(1,2) by (auto simp: in_flight_def)
  then show ?thesis
    using assms(3) by (rule card_mono [rotated])
qed

lemma grouped_round:
  assumes g: "grouped n i tr" and i: "i < n" and d: "CONCURRENCY_LIMIT dvd i"
    and s: "started evs = {}" and e: "ended evs = {i ..< i + c}"
    and c: "c = min CONCURRENCY_LIMIT (n - i)"
  shows "grouped n (i + CONCURRENCY_LIMIT) (tr @ map ProbeStart [i ..< i + c] @ evs)"
proof -
  let ?ss = "map ProbeStart [i ..< i + c]"
  let ?tr = "tr @ ?ss @ evs"
  from g have st: "started tr = {0 ..< i}" and en: "ended tr = {0 ..< i}"
    and cat: "CatalogEnd \<in> set tr"
    and fl: "\<And>k. card (in_flight (take k tr)) \<le> CONCURRENCY_LIMIT"
    and ord: "\<And>p j. p < length tr \<Longrightarrow> tr ! p = ProbeStart j \<Longrightarrow>
            CatalogEnd \<in> set (take p tr)
            \<and> (\<forall>a. a div CONCURRENCY_LIMIT < j div CONCURRENCY_LIMIT \<longrightarrow> a \<in> ended (take p tr))"
    using i by (auto simp: grouped_def)
  have ic: "i + c = min (i + CONCURRENCY_LIMIT) n"
    using i c by auto
  have c5: "c \<le> CONCURRENCY_LIMIT"
    using c by simp
  have 1: "started ?tr = {0 ..< min (i + CONCURRENCY_LIMIT) n}"
    using st s ic by auto
  have 2: "ended ?tr = {0 ..< min (i + CONCURRENCY_LIMIT) n}"
    using en e ic by auto
  have 3: "CatalogEnd \<in> set ?tr"
    using cat by simp
  have 4: "card (in_flight (take k ?tr)) \<le> CONCURRENCY_LIMIT" for k
  proof (cases "k \<le> length tr")
    case True
    then show ?thesis using fl [of k] by simp
  next
    case False
    then have t: "take k ?tr = tr @ take (k - length tr) (?ss @ evs)"
      by simp
    have "started (take (k - length tr) (?ss @ evs)) \<subseteq> started (?ss @ evs)"
      by (rule started_take)
    also have "\<dots> = {i ..< i + c}"
      using s by simp
    finally have "card (in_flight (tr @ take (k - length tr) (?ss @ evs))) \<le> card {i ..< i + c}"
      using st en by (intro in_flight_take_bound) simp_all
    with c5 t show ?thesis by simp
  qed
  have 5: "CatalogEnd \<in> set (take p ?tr)
        \<and> (\<forall>a. a div CONCURRENCY_LIMIT < j div CONCURRENCY_LIMIT \<longrightarrow> a \<in> ended (take p ?tr))"
    if p: "p < length ?tr" and pj: "?tr ! p = ProbeStart j" for p j
  proof -
    consider "p < length tr" | "length tr \<le> p" "p < length tr + c" | "length tr + c \<le> p"
      by linarith
    then show ?thesis
    proof cases
      case 1
      then show ?thesis
        using ord [of p j] pj by (simp add: nth_append)
    next
      case 2
      then have "p - length tr < c" by linarith
      with 2 have "?tr ! p = ProbeStart (i + (p - length tr))"
        by (simp add: nth_append)
      with pj have j: "j = i + (p - length tr)" by simp
      with 2 c5 have "j < i + CONCURRENCY_LIMIT" by simp
      with d j have jd: "j div CONCURRENCY_LIMIT = i div CONCURRENCY_LIMIT"
        by (auto simp: CONCURRENCY_LIMIT_def elim!: dvdE)
      have tk: "take p ?tr = tr @ take (p - length tr) (?ss @ evs)"
        using 2 by simp
      have "a \<in> ended tr" if "a div CONCURRENCY_LIMIT < j div CONCURRENCY_LIMIT" for a
      proof -
        from that jd have "a div CONCURRENCY_LIMIT < i div CONCURRENCY_LIMIT" by simp
        then have "a < i"
          by (metis div_le_mono leD leI)
        with en show ?thesis by simp
      qed
      with cat tk show ?thesis by simp
    next
      case 3
      then have "\<not> p < length tr" "\<not> p - length tr < c" by linarith+
      then have "?tr ! p = evs ! (p - length tr - c)"
        by (simp add: nth_append)
      moreover from 3 p have "p - length tr - c < length evs" by simp
      ultimately have "ProbeStart j \<in> set evs"
        using pj by (metis nth_mem)
      with s show ?thesis by (simp add: started_iff [symmetric])
    qed
  qed
  from 1 2 3 4 5 show ?thesis
    unfolding grouped_def by blast
qed

lemma scan_loop_grouped:
  "grouped (length tabs) i (trace st) \<Longrightarrow> CONCURRENCY_LIMIT dvd i \<Longrightarrow>
     grouped (length tabs) (length tabs) (trace (scan_loop E a m tabs i st))"
proof (induction E a m tabs i st rule: scan_loop.induct)
  case (1 E a m tabs i st)
  show ?case
  proof (cases "i < length tabs")
    case False
    with "1.prems"(1) show ?thesis
      by (subst scan_loop.simps) (simp add: grouped_def min_def)
  next
    case True
    define chunk where "chunk = slice (int i) (int (i + CONCURRENCY_LIMIT)) tabs"
    define numbers where "numbers = [i ..< i + length chunk]"
    define st1 where "st1 = st\<lparr>trace := trace st @ map ProbeStart numbers\<rparr>"
    define ts where "ts = map (\<lambda>(k, t). Task k t Probing) (zip numbers chunk)"
    have len: "length chunk = min CONCURRENCY_LIMIT (length tabs - i)"
      by (simp only: chunk_def slice_chunk) simp
    from promise_all_trace [of E a m ts st1] obtain evs where
      evs: "trace (promise_all E a m ts st1) = trace st1 @ evs" "started evs = {}"
        "ended evs = probing ts"
      by blast
    have "probing ts = set numbers"
      unfolding ts_def by (rule probing_started_tasks) (simp add: numbers_def)
    with evs(3) have en: "ended evs = {i ..< i + length chunk}"
      by (simp add: numbers_def)
    have "grouped (length tabs) (i + CONCURRENCY_LIMIT)
            (trace st @ map ProbeStart [i ..< i + length chunk] @ evs)"
      using "1.prems"(1) True "1.prems"(2) evs(2) en len by (rule grouped_round)
    then have g: "grouped (length tabs) (i + CONCURRENCY_LIMIT) (trace (promise_all E a m ts st1))"
      using evs(1) by (simp add: st1_def numbers_def)
    have "grouped (length tabs) (length tabs)
            (trace (scan_loop E a m tabs (i + CONCURRENCY_LIMIT) (promise_all E a m ts st1)))"
      using "1.IH" [OF True chunk_def numbers_def st1_def ts_def g] "1.prems"(2) by simp
    moreover have "scan_loop E a m tabs i st
        = scan_loop E a m tabs (i + CONCURRENCY_LIMIT) (promise_all E a m ts st1)"
      using True
      by (subst scan_loop.simps) (simp add: Let_def chunk_def numbers_def st1_def ts_def)
    ultimately show ?thesis by simp
  qed
qed

subsection \<open>The findings of the scan\<close>

lemma chunks_Nil [simp]: "chunks c [] = []"
  by (simp add: chunks.simps)

lemma chunks_step: "0 < c \<Longrightarrow> xs \<noteq> [] \<Longrightarrow> chunks c xs = take c xs # chunks c (drop c xs)"
  by (subst chunks.simps) simp

lemma concat_chunks: "0 < c \<Longrightarrow> concat (chunks c xs) = xs"
proof (induction c xs rule: chunks.induct)
  case (1 c xs)
  show ?case
  proof (cases "xs = []")
    case True
    then show ?thesis by simp
  next
    case False
    with 1 show ?thesis by (simp add: chunks_step)
  qed
qed

lemma started_task_findings:
  "length ns = length ch \<Longrightarrow>
     concat (map (task_findings E a m) (map (\<lambda>(k, t). Task k t Probing) (zip ns ch)))
       = concat (map (scanTable_findings E a m) ch)"
  by (induction ns ch rule: list_induct2) simp_all

lemma scan_loop_found:
  "\<exists>gs. found (scan_loop E a m tabs i st) = found st @ concat gs
        \<and> list_all2 (\<lambda>g c. mset g = mset (concat (map (scanTable_findings E a m) c)))
             gs (chunks CONCURRENCY_LIMIT (drop i tabs))"
proof (induction E a m tabs i st rule: scan_loop.induct)
  case (1 E a m tabs i st)
  show ?case
  proof (cases "i < length tabs")
    case False
    then show ?thesis
      by (subst scan_loop.simps) simp
  next
    case True
    define chunk where "chunk = slice (int i) (int (i + CONCURRENCY_LIMIT)) tabs"
    define numbers where "numbers = [i ..< i + length chunk]"
    define st1 where "st1 = st\<lparr>trace := trace st @ map ProbeStart numbers\<rparr>"
    define ts where "ts = map (\<lambda>(k, t). Task k t Probing) (zip numbers chunk)"
    have chunk: "chunk = take CONCURRENCY_LIMIT (drop i tabs)"
      by (simp only: chunk_def slice_chunk)
    from promise_all_found [of E a m ts st1] obtain fs where
      fs: "found (promise_all E a m ts st1) = found st1 @ fs"
        "mset fs = mset (concat (map (task_findings E a m) ts))"
      by blast
    have "concat (map (task_findings E a m) ts) = concat (map (scanTable_findings E a m) chunk)"
      unfolding ts_def by (rule started_task_findings) (simp add: numbers_def)
    with fs(2) have fs2: "mset fs = mset (concat (map (scanTable_findings E a m) chunk))"
      by simp
    from "1.IH" [OF True chunk_def numbers_def st1_def ts_def] obtain gs where
      gs: "found (scan_loop E a m tabs (i + CONCURRENCY_LIMIT) (promise_all E a m ts st1))
            = found (promise_all E a m ts st1) @ concat gs"
        "list_all2 (\<lambda>g c. mset g = mset (concat (map (scanTable_findings E a m) c)))
             gs (chunks CONCURRENCY_LIMIT (drop (i + CONCURRENCY_LIMIT) tabs))"
      by blast
    have unfold: "scan_loop E a m tabs i st
        = scan_loop E a m tabs (i + CONCURRENCY_LIMIT) (promise_all E a m ts st1)"
      using True
      by (subst scan_loop.simps) (simp add: Let_def chunk_def numbers_def st1_def ts_def)
    have "chunks CONCURRENCY_LIMIT (drop i tabs)
        = chunk # chunks CONCURRENCY_LIMIT (drop (i + CONCURRENCY_LIMIT) tabs)"
      using True by (simp add: chunks_step chunk CONCURRENCY_LIMIT_def add.commute)
    with gs(2) fs2 have "list_all2 (\<lambda>g c. mset g = mset (concat (map (scanTable_findings E a m) c)))
             (fs # gs) (chunks CONCURRENCY_LIMIT (drop i tabs))"
      by simp
    moreover have "found (scan_loop E a m tabs i st) = found st @ concat (fs # gs)"
      using unfold gs(1) fs(1) by (simp add: st1_def)
    ultimately show ?thesis by blast
  qed
qed

lemma grouped_findings_mset:
  "list_all2 (\<lambda>g c. mset g = mset (concat (map f c))) gs cs \<Longrightarrow>
     mset (concat gs) = mset (concat (map f (concat cs)))"
  by (induction gs cs rule: list_all2_induct) simp_all

lemma scan_loop_found_mset:
  "mset (found (scan_loop E a m tabs 0 st))
     = mset (found st) + mset (concat (map (scanTable_findings E a m) tabs))"
proof -
  from scan_loop_found [of E a m tabs 0 st] obtain gs where
    gs: "found (scan_loop E a m tabs 0 st) = found st @ concat gs"
      "list_all2 (\<lambda>g c. mset g = mset (concat (map (scanTable_findings E a m) c)))
             gs (chunks CONCURRENCY_LIMIT tabs)"
    by auto
  from grouped_findings_mset [OF gs(2)] have
    "mset (concat gs) = mset (concat (map (scanTable_findings E a m) tabs))"
    by (simp add: concat_chunks CONCURRENCY_LIMIT_def)
  with gs(1) show ?thesis by simp
qed

lemma scanTable_findings_length: "length (scanTable_findings E a m t) \<le> 1"
  by (simp add: scanTable_findings_def split: option.splits)

lemma findings_length: "length (concat (map (scanTable_findings E a m) tabs)) \<le> length tabs"
proof (induction tabs)
  case Nil
  show ?case by simp
next
  case (Cons t tabs)
  with scanTable_findings_length [of E a m t] show ?case by simp
qed

lemma scan_loop_found_length:
  "length (found (scan_loop E a m tabs 0 st)) \<le> length (found st) + length tabs"
proof -
  have "size (mset (found (scan_loop E a m tabs 0 st)))
      = size (mset (found st)) + size (mset (concat (map (scanTable_findings E a m) tabs)))"
    by (simp only: scan_loop_found_mset size_union)
  with findings_length [of E a m tabs] show ?thesis by simp
qed

subsection \<open>The summary\<close>

lemma slice_cap: "0 \<le> m \<Longrightarrow> int (length (slice 0 m xs)) \<le> m"
  by (simp add: slice_def Let_def)

lemma scan_summary:
  "total_tables (summary (scanProject E u p sk ak tok opts))
     = vulnerable_tables (summary (scanProject E u p sk ak tok opts))
       + secure_tables (summary (scanProject E u p sk ak tok opts))"
  by (simp add: scanProject_def scanProject_run_def Let_def failed_scan_def no_tables_def
           split: option.splits sum.splits)

lemma scan_total_cap:
  assumes "0 \<le> (case maxTables opts of None \<Rightarrow> 10 | Some n \<Rightarrow> n)"
  shows "total_tables (summary (scanProject E u p sk ak tok opts))
     \<le> (case maxTables opts of None \<Rightarrow> 10 | Some n \<Rightarrow> n)"
  using assms slice_cap [of 10]
  by (auto simp: scanProject_def scanProject_run_def Let_def failed_scan_def no_tables_def slice_cap
           split: option.splits sum.splits)

lemma scan_secure_nonneg:
  "0 \<le> secure_tables (summary (scanProject E u p sk ak tok opts))"
  using scan_loop_found_length [of E _ _ _ "\<lparr>found = [], trace = [CatalogStart, CatalogEnd], pending = completion_order E\<rparr>"]
  by (auto simp: scanProject_def scanProject_run_def Let_def failed_scan_def no_tables_def
           split: option.splits sum.splits)

lemma single_task_found:
  "found (promise_all E a m [Task i t Probing] st) = found st @ scanTable_findings E a m t"
proof -
  from promise_all_found [of E a m "[Task i t Probing]" st] obtain fs where
    fs: "found (promise_all E a m [Task i t Probing] st) = found st @ fs"
      "mset fs = mset (scanTable_findings E a m t)"
    by auto
  have "fs = scanTable_findings E a m t"
  proof (cases "scanTable_findings E a m t")
    case Nil
    with fs(2) show ?thesis by simp
  next
    case (Cons f rest)
    with scanTable_findings_length [of E a m t] have "scanTable_findings E a m t = [f]"
      by simp
    with fs(2) have "length fs = length [f]" and "set fs = set [f]"
      by (metis mset_eq_length, metis mset_eq_setD)
    then have "fs = [f]"
      by (cases fs) auto
    with \<open>scanTable_findings E a m t = [f]\<close> show ?thesis by simp
  qed
  with fs(1) show ?thesis by simp
qed

lemma number_to_string_nonempty: "number_to_string n \<noteq> []"
  by (subst number_to_string.simps) simp

lemma scan_success_probe_independent:
  "success (scanProject (E\<lparr>anon_select := f\<rparr>) u p sk ak tok opts)
     = success (scanProject E u p sk ak tok opts)"
  by (simp add: scanProject_def scanProject_run_def executeQuery_independent Let_def failed_scan_def
           split: option.splits sum.splits fetched.splits)

lemma scan_error_probe_independent:
  "error (scanProject (E\<lparr>anon_select := f\<rparr>) u p sk ak tok opts)
     = error (scanProject E u p sk ak tok opts)"
  by (simp add: scanProject_def scanProject_run_def executeQuery_independent Let_def failed_scan_def
           split: option.splits sum.splits fetched.splits)

lemma scan_found_groups:
  "\<exists>gs. vulnerabilities (scanProject E u p sk ak tok opts) = concat gs
      \<and> list_all2 (\<lambda>g c. mset g = mset (findings_in_catalog_order E u p sk ak tok opts c))
           gs (chunks CONCURRENCY_LIMIT (tables_to_scan E u p sk ak tok opts))"
proof -
  consider (fail) "createClient E u sk \<noteq> None \<or> createClient E u ak \<noteq> None
        \<or> (\<exists>e. executeQuery E tok p = Inl e) \<or> executeQuery E tok p = Inr []"
    | (run) result where "createClient E u sk = None" "createClient E u ak = None"
        "executeQuery E tok p = Inr result" "result \<noteq> []"
    by (cases "executeQuery E tok p") auto
  then show ?thesis
  proof cases
    case fail
    then have "vulnerabilities (scanProject E u p sk ak tok opts) = []"
      by (auto simp: scanProject_def scanProject_run_def Let_def failed_scan_def
               split: option.splits sum.splits)
    moreover from fail have "tables_to_scan E u p sk ak tok opts = []"
      by (auto simp: tables_to_scan_def slice_def split: option.splits sum.splits)
    ultimately show ?thesis by simp
  next
    case run
    let ?tabs = "slice 0 (case maxTables opts of None \<Rightarrow> 10 | Some n \<Rightarrow> n) (map table_name result)"
    let ?m = "fold (\<lambda>r m. m(table_name r \<mapsto> rls_enabled r)) result Map.empty"
    let ?st = "\<lparr> found = [], trace = [CatalogStart, CatalogEnd], pending = completion_order E \<rparr>"
    have v: "vulnerabilities (scanProject E u p sk ak tok opts)
        = found (scan_loop E (classifier_on E opts) ?m ?tabs 0 ?st)"
      using run by (simp add: scanProject_def scanProject_run_def Let_def classifier_on_def)
    have t: "tables_to_scan E u p sk ak tok opts = ?tabs"
      using run by (simp add: tables_to_scan_def)
    have m: "rls_status E p tok = ?m"
      using run by (simp add: rls_status_def)
    from scan_loop_found [of E "classifier_on E opts" ?m ?tabs 0 ?st] v t m show ?thesis
      by (simp add: findings_in_catalog_order_def)
  qed
qed

lemma scan_found_mset:
  "mset (vulnerabilities (scanProject E u p sk ak tok opts))
     = mset (findings_in_catalog_order E u p sk ak tok opts (tables_to_scan E u p sk ak tok opts))"
proof -
  from scan_found_groups [of E u p sk ak tok opts] obtain gs where
    gs: "vulnerabilities (scanProject E u p sk ak tok opts) = concat gs"
      "list_all2 (\<lambda>g c. mset g = mset (findings_in_catalog_order E u p sk ak tok opts c))
           gs (chunks CONCURRENCY_LIMIT (tables_to_scan E u p sk ak tok opts))"
    by blast
  from gs(2) have "mset (concat gs)
      = mset (findings_in_catalog_order E u p sk ak tok opts
                (concat (chunks CONCURRENCY_LIMIT (tables_to_scan E u p sk ak tok opts))))"
    unfolding findings_in_catalog_order_def by (rule grouped_findings_mset)
  with gs(1) show ?thesis
    by (simp add: concat_chunks CONCURRENCY_LIMIT_def)
qed

lemma scan_summary_counts:
  "summary (scanProject E u p sk ak tok opts)
     = \<lparr> total_tables = int (length (tables_to_scan E u p sk ak tok opts)),
         vulnerable_tables = int (length (vulnerabilities (scanProject E u p sk ak tok opts))),
         secure_tables = int (length (tables_to_scan E u p sk ak tok opts))
            - int (length (vulnerabilities (scanProject E u p sk ak tok opts))) \<rparr>"
  by (auto simp: scanProject_def scanProject_run_def Let_def failed_scan_def no_tables_def
        tables_to_scan_def slice_def split: option.splits sum.splits)

lemma analyzeWithAI_degrades:
  assumes "\<not> anthropic \<or> (\<exists>e. messages_create E t fl r b = AIRejects e)
     \<or> messages_create E t fl r b = AIMessage []
     \<or> (\<exists>bs. messages_create E t fl r b = AIMessage (OtherBlock # bs))
     \<or> (\<exists>txt bs. messages_create E t fl r b = AIMessage (TextBlock txt # bs)
           \<and> (json_match txt = None \<or> (\<exists>mt. json_match txt = Some mt \<and> JSON_parse E mt = None)))"
  shows "analyzeWithAI E anthropic t fl r b = None"
  using assms by (auto simp: analyzeWithAI_def)

lemma without_annotation_make_finding:
  "without_annotation (make_finding t fl r b x) = make_finding t fl r b None"
  by (simp add: without_annotation_def make_finding_def)

lemma scanTable_findings_core:
  "anon_select E' = anon_select E \<Longrightarrow>
   map without_annotation (scanTable_findings E' a' m t)
     = map without_annotation (scanTable_findings E a m t)"
  by (simp add: scanTable_findings_def readable_row_def without_annotation_make_finding
           split: option.splits)

lemma findings_core:
  "anon_select E' = anon_select E \<Longrightarrow>
   map without_annotation (concat (map (scanTable_findings E' a' m) tabs))
     = map without_annotation (concat (map (scanTable_findings E a m) tabs))"
proof (induction tabs)
  case Nil
  show ?case by simp
next
  case (Cons t tabs)
  from Cons.prems have "map without_annotation (scanTable_findings E' a' m t)
      = map without_annotation (scanTable_findings E a m t)"
    by (rule scanTable_findings_core)
  with Cons show ?case by simp
qed

lemma classifier_tables:
  "tables_to_scan (E\<lparr>ANTHROPIC_API_KEY := k, messages_create := mc, JSON_parse := jp\<rparr>) u p sk ak tok opts
     = tables_to_scan E u p sk ak tok opts"
  by (simp add: tables_to_scan_def executeQuery_independent)

lemma classifier_rls:
  "rls_status (E\<lparr>ANTHROPIC_API_KEY := k, messages_create := mc, JSON_parse := jp\<rparr>) p tok
     = rls_status E p tok"
  by (simp add: rls_status_def executeQuery_independent)

lemma scan_core_classifier_independent:
  "mset (map without_annotation (vulnerabilities
      (scanProject (E\<lparr>ANTHROPIC_API_KEY := k, messages_create := mc, JSON_parse := jp\<rparr>) u p sk ak tok opts)))
   = mset (map without_annotation (vulnerabilities (scanProject E u p sk ak tok opts)))"
proof -
  let ?E = "E\<lparr>ANTHROPIC_API_KEY := k, messages_create := mc, JSON_parse := jp\<rparr>"
  have "mset (map without_annotation (vulnerabilities (scanProject ?E u p sk ak tok opts)))
      = image_mset without_annotation (mset (vulnerabilities (scanProject ?E u p sk ak tok opts)))"
    by simp
  also have "\<dots> = image_mset without_annotation
        (mset (findings_in_catalog_order ?E u p sk ak tok opts (tables_to_scan ?E u p sk ak tok opts)))"
    by (simp only: scan_found_mset)
  also have "\<dots> = mset (map without_annotation
        (findings_in_catalog_order ?E u p sk ak tok opts (tables_to_scan E u p sk ak tok opts)))"
    by (simp add: classifier_tables)
  also have "\<dots> = mset (map without_annotation
        (findings_in_catalog_order E u p sk ak tok opts (tables_to_scan E u p sk ak tok opts)))"
  proof -
    have "anon_select ?E = anon_select E" by simp
    then have "map without_annotation (concat (map (scanTable_findings ?E (classifier_on ?E opts)
            (rls_status E p tok)) (tables_to_scan E u p sk ak tok opts)))
        = map without_annotation (concat (map (scanTable_findings E (classifier_on E opts)
            (rls_status E p tok)) (tables_to_scan E u p sk ak tok opts)))"
      by (rule findings_core)
    then show ?thesis
      by (simp only: findings_in_catalog_order_def classifier_rls)
  qed
  also have "\<dots> = image_mset without_annotation
        (mset (findings_in_catalog_order E u p sk ak tok opts (tables_to_scan E u p sk ak tok opts)))"
    by simp
  also have "\<dots> = image_mset without_annotation (mset (vulnerabilities (scanProject E u p sk ak tok opts)))"
    by (simp only: scan_found_mset)
  finally show ?thesis by simp
qed

lemma scan_success_classifier_independent:
  "success (scanProject (E\<lparr>ANTHROPIC_API_KEY := k, messages_create := mc, JSON_parse := jp\<rparr>) u p sk ak tok opts)
     = success (scanProject E u p sk ak tok opts)"
  by (simp add: scanProject_def scanProject_run_def executeQuery_independent Let_def failed_scan_def
           split: option.splits sum.splits fetched.splits)

lemma scan_summary_classifier_independent:
  "summary (scanProject (E\<lparr>ANTHROPIC_API_KEY := k, messages_create := mc, JSON_parse := jp\<rparr>) u p sk ak tok opts)
     = summary (scanProject E u p sk ak tok opts)"
proof -
  let ?E = "E\<lparr>ANTHROPIC_API_KEY := k, messages_create := mc, JSON_parse := jp\<rparr>"
  have "size (mset (map without_annotation (vulnerabilities (scanProject ?E u p sk ak tok opts))))
      = size (mset (map without_annotation (vulnerabilities (scanProject E u p sk ak tok opts))))"
    by (simp only: scan_core_classifier_independent)
  then have "length (vulnerabilities (scanProject ?E u p sk ak tok opts))
      = length (vulnerabilities (scanProject E u p sk ak tok opts))"
    by simp
  then show ?thesis
    by (simp add: scan_summary_counts classifier_tables)
qed

lemma unconfigured_finding:
  "\<not> a \<Longrightarrow> f \<in> set (scanTable_findings E a m t) \<Longrightarrow> ai_analysis f = None"
  by (cases "readable_row E t")
     (simp_all add: scanTable_findings_def analyzeWithAI_def make_finding_def)

lemma scan_unconfigured:
  assumes "\<not> truthy (ANTHROPIC_API_KEY E)"
    and "f \<in> set (vulnerabilities (scanProject E u p sk ak tok opts))"
  shows "ai_analysis f = None"
proof -
  have "set (vulnerabilities (scanProject E u p sk ak tok opts))
      = set (findings_in_catalog_order E u p sk ak tok opts (tables_to_scan E u p sk ak tok opts))"
    using scan_found_mset [of E u p sk ak tok opts] by (rule mset_eq_setD)
  with assms(2) obtain t where
    "f \<in> set (scanTable_findings E (classifier_on E opts) (rls_status E p tok) t)"
    by (auto simp: findings_in_catalog_order_def)
  moreover have "\<not> classifier_on E opts"
    using assms(1) by (simp add: classifier_on_def)
  ultimately show ?thesis
    by (rule unconfigured_finding [rotated])
qed

lemma scan_succeeds:
  assumes "createClient E u sk = None" "createClient E u ak = None" "executeQuery E tok p = Inr rows"
  shows "success (scanProject E u p sk ak tok opts)"
  using assms by (simp add: scanProject_def scanProject_run_def Let_def)

lemma promise_all_in_order:
  "pending st = [] \<Longrightarrow>
     found (promise_all E a m ts st) = found st @ concat (map (task_findings E a m) ts)
     \<and> pending (promise_all E a m ts st) = []"
proof (induction E a m ts st rule: promise_all.induct)
  case (1 E a m ts st)
  show ?case
  proof (cases ts)
    case Nil
    with "1.prems" show ?thesis by simp
  next
    case (Cons t rest)
    then have ne: "ts \<noteq> []" by simp
    have k: "next_choice (pending st) (length ts) = 0"
      using "1.prems" by (simp add: next_choice_def)
    have st0: "st\<lparr>pending := tl (pending st)\<rparr> = st"
      using "1.prems" by simp
    obtain r st1 where step: "scanTable E a m t st = (r, st1)"
      by (cases "scanTable E a m t st")
    from scanTable_step [OF step] obtain f1 where
      f1: "found st1 = found st @ f1"
        "f1 @ (case r of None \<Rightarrow> [] | Some t' \<Rightarrow> task_findings E a m t') = task_findings E a m t"
        "pending st1 = []"
      using "1.prems" by auto
    have unfold: "promise_all E a m ts st = promise_all E a m (settle 0 r ts) st1"
      using promise_all_step [OF ne, of E a m st r st1] step k st0 Cons by simp
    from "1.IH" [OF ne refl refl] step k st0 Cons f1(3) have ih:
      "found (promise_all E a m (settle 0 r ts) st1)
         = found st1 @ concat (map (task_findings E a m) (settle 0 r ts))
       \<and> pending (promise_all E a m (settle 0 r ts) st1) = []"
      by simp
    have "concat (map (task_findings E a m) (settle 0 r ts))
        = (case r of None \<Rightarrow> [] | Some t' \<Rightarrow> task_findings E a m t')
          @ concat (map (task_findings E a m) rest)"
      using Cons by (cases r) (simp_all add: settle_def)
    with ih f1 unfold Cons show ?thesis
      by (metis append.assoc concat.simps(2) list.simps(9))
  qed
qed

lemma scan_loop_in_order:
  "pending st = [] \<Longrightarrow>
     found (scan_loop E a m tabs i st)
       = found st @ concat (map (scanTable_findings E a m) (drop i tabs))
     \<and> pending (scan_loop E a m tabs i st) = []"
proof (induction E a m tabs i st rule: scan_loop.induct)
  case (1 E a m tabs i st)
  show ?case
  proof (cases "i < length tabs")
    case False
    with "1.prems" show ?thesis
      by (subst (1 2) scan_loop.simps) simp
  next
    case True
    define chunk where "chunk = slice (int i) (int (i + CONCURRENCY_LIMIT)) tabs"
    define numbers where "numbers = [i ..< i + length chunk]"
    define st1 where "st1 = st\<lparr>trace := trace st @ map ProbeStart numbers\<rparr>"
    define ts where "ts = map (\<lambda>(k, t). Task k t Probing) (zip numbers chunk)"
    have chunk: "chunk = take CONCURRENCY_LIMIT (drop i tabs)"
      by (simp only: chunk_def slice_chunk)
    have p1: "pending st1 = []"
      using "1.prems" by (simp add: st1_def)
    from promise_all_in_order [OF p1, of E a m ts] have
      pa: "found (promise_all E a m ts st1) = found st1 @ concat (map (task_findings E a m) ts)"
        "pending (promise_all E a m ts st1) = []"
      by simp_all
    have "concat (map (task_findings E a m) ts) = concat (map (scanTable_findings E a m) chunk)"
      unfolding ts_def by (rule started_task_findings) (simp add: numbers_def)
    with pa(1) have f: "found (promise_all E a m ts st1)
        = found st @ concat (map (scanTable_findings E a m) chunk)"
      by (simp add: st1_def)
    from "1.IH" [OF True chunk_def numbers_def st1_def ts_def pa(2)] have ih:
      "found (scan_loop E a m tabs (i + CONCURRENCY_LIMIT) (promise_all E a m ts st1))
         = found (promise_all E a m ts st1)
           @ concat (map (scanTable_findings E a m) (drop (i + CONCURRENCY_LIMIT) tabs))"
      "pending (scan_loop E a m tabs (i + CONCURRENCY_LIMIT) (promise_all E a m ts st1)) = []"
      by simp_all
    have unfold: "scan_loop E a m tabs i st
        = scan_loop E a m tabs (i + CONCURRENCY_LIMIT) (promise_all E a m ts st1)"
      using True
      by (subst scan_loop.simps) (simp add: Let_def chunk_def numbers_def st1_def ts_def)
    have "drop i tabs = chunk @ drop (i + CONCURRENCY_LIMIT) tabs"
      unfolding chunk
      by (metis add.commute append_take_drop_id drop_drop)
    then have "concat (map (scanTable_findings E a m) (drop i tabs))
        = concat (map (scanTable_findings E a m) chunk)
          @ concat (map (scanTable_findings E a m) (drop (i + CONCURRENCY_LIMIT) tabs))"
      by (metis concat_append map_append)
    with unfold ih f show ?thesis by simp
  qed
qed

lemma scan_in_order:
  assumes "completion_order E = []"
  shows "vulnerabilities (scanProject E u p sk ak tok opts)
     = findings_in_catalog_order E u p sk ak tok opts (tables_to_scan E u p sk ak tok opts)"
proof -
  consider (fail) "createClient E u sk \<noteq> None \<or> createClient E u ak \<noteq> None
        \<or> (\<exists>e. executeQuery E tok p = Inl e) \<or> executeQuery E tok p = Inr []"
    | (run) result where "createClient E u sk = None" "createClient E u ak = None"
        "executeQuery E tok p = Inr result" "result \<noteq> []"
    by (cases "executeQuery E tok p") auto
  then show ?thesis
  proof cases
    case fail
    then have "vulnerabilities (scanProject E u p sk ak tok opts) = []"
      by (auto simp: scanProject_def scanProject_run_def Let_def failed_scan_def
               split: option.splits sum.splits)
    moreover from fail have "tables_to_scan E u p sk ak tok opts = []"
      by (auto simp: tables_to_scan_def slice_def split: option.splits sum.splits)
    ultimately show ?thesis by (simp add: findings_in_catalog_order_def)
  next
    case run
    let ?tabs = "slice 0 (case maxTables opts of None \<Rightarrow> 10 | Some n \<Rightarrow> n) (map table_name result)"
    let ?m = "fold (\<lambda>r m. m(table_name r \<mapsto> rls_enabled r)) result Map.empty"
    let ?st = "\<lparr> found = [], trace = [CatalogStart, CatalogEnd], pending = completion_order E \<rparr>"
    have v: "vulnerabilities (scanProject E u p sk ak tok opts)
        = found (scan_loop E (classifier_on E opts) ?m ?tabs 0 ?st)"
      using run by (simp add: scanProject_def scanProject_run_def Let_def classifier_on_def)
    have t: "tables_to_scan E u p sk ak tok opts = ?tabs"
      using run by (simp add: tables_to_scan_def)
    have m: "rls_status E p tok = ?m"
      using run by (simp add: rls_status_def)
    have "pending ?st = []" using assms by simp
    from scan_loop_in_order [OF this, of E "classifier_on E opts" ?m ?tabs 0] v t m show ?thesis
      by (simp add: findings_in_catalog_order_def)
  qed
qed

lemma scan_order_tables:
  "tables_to_scan (E\<lparr>completion_order := order\<rparr>) u p sk ak tok opts
     = tables_to_scan E u p sk ak tok opts"
  by (simp add: tables_to_scan_def executeQuery_independent)

lemma scan_order_findings:
  "findings_in_catalog_order (E\<lparr>completion_order := order\<rparr>) u p sk ak tok opts tabs
     = findings_in_catalog_order E u p sk ak tok opts tabs"
proof -
  have "analyzeWithAI (E\<lparr>completion_order := order\<rparr>) = analyzeWithAI E"
    by (intro ext)
       (simp add: analyzeWithAI_def
             split: ai_reply.splits list.splits content_block.splits option.splits)
  then have "scanTable_findings (E\<lparr>completion_order := order\<rparr>) a m = scanTable_findings E a m" for a m
    by (intro ext) (simp add: scanTable_findings_def readable_row_def split: option.splits)
  then show ?thesis
    by (simp add: findings_in_catalog_order_def classifier_on_def rls_status_def executeQuery_independent)
qed

lemma scan_order_mset:
  "mset (vulnerabilities (scanProject (E\<lparr>completion_order := order\<rparr>) u p sk ak tok opts))
     = mset (vulnerabilities (scanProject E u p sk ak tok opts))"
  by (simp only: scan_found_mset scan_order_tables scan_order_findings)

lemma scan_order_summary:
  "summary (scanProject (E\<lparr>completion_order := order\<rparr>) u p sk ak tok opts)
     = summary (scanProject E u p sk ak tok opts)"
proof -
  have "size (mset (vulnerabilities (scanProject (E\<lparr>completion_order := order\<rparr>) u p sk ak tok opts)))
      = size (mset (vulnerabilities (scanProject E u p sk ak tok opts)))"
    by (simp only: scan_order_mset)
  then show ?thesis
    by (simp add: scan_summary_counts scan_order_tables)
qed

lemma grouped_start: "grouped n 0 [CatalogStart, CatalogEnd]"
proof -
  have a: "take k [CatalogStart, CatalogEnd] \<in> {[], [CatalogStart], [CatalogStart, CatalogEnd]}" for k
    by (cases k; simp; cases "k - 1"; simp)
  have "in_flight (take k [CatalogStart, CatalogEnd]) = {}" for k
    using a [of k] by (auto simp: in_flight_def started_iff)
  moreover have "p < 2 \<Longrightarrow> [CatalogStart, CatalogEnd] ! p \<noteq> ProbeStart j" for p j
    by (cases p; simp; cases "p - 1"; simp)
  ultimately show ?thesis
    by (auto simp: grouped_def started_iff ended_iff)
qed

lemma scan_events_cases:
  "(scan_events E u p sk ak tok opts = [] \<and> tables_to_scan E u p sk ak tok opts = [])
   \<or> (scan_events E u p sk ak tok opts = [CatalogStart, CatalogEnd]
        \<and> tables_to_scan E u p sk ak tok opts = [])
   \<or> grouped (length (tables_to_scan E u p sk ak tok opts))
         (length (tables_to_scan E u p sk ak tok opts)) (scan_events E u p sk ak tok opts)"
proof -
  consider (clients) "createClient E u sk \<noteq> None \<or> createClient E u ak \<noteq> None"
    | (catalog) "createClient E u sk = None" "createClient E u ak = None"
        "(\<exists>e. executeQuery E tok p = Inl e) \<or> executeQuery E tok p = Inr []"
    | (run) result where "createClient E u sk = None" "createClient E u ak = None"
        "executeQuery E tok p = Inr result" "result \<noteq> []"
    by (cases "executeQuery E tok p") auto
  then show ?thesis
  proof cases
    case clients
    then have "scan_events E u p sk ak tok opts = []"
      by (auto simp: scan_events_def scanProject_run_def Let_def split: option.splits)
    moreover from clients have "tables_to_scan E u p sk ak tok opts = []"
      by (auto simp: tables_to_scan_def split: option.splits sum.splits)
    ultimately show ?thesis by simp
  next
    case catalog
    then have "scan_events E u p sk ak tok opts = [CatalogStart, CatalogEnd]"
      by (auto simp: scan_events_def scanProject_run_def Let_def)
    moreover from catalog have "tables_to_scan E u p sk ak tok opts = []"
      by (auto simp: tables_to_scan_def slice_def)
    ultimately show ?thesis by simp
  next
    case run
    let ?tabs = "slice 0 (case maxTables opts of None \<Rightarrow> 10 | Some n \<Rightarrow> n) (map table_name result)"
    let ?m = "fold (\<lambda>r m. m(table_name r \<mapsto> rls_enabled r)) result Map.empty"
    let ?st = "\<lparr> found = [], trace = [CatalogStart, CatalogEnd], pending = completion_order E \<rparr>"
    have v: "scan_events E u p sk ak tok opts
        = trace (scan_loop E (classifier_on E opts) ?m ?tabs 0 ?st)"
      using run by (simp add: scan_events_def scanProject_run_def Let_def classifier_on_def)
    have t: "tables_to_scan E u p sk ak tok opts = ?tabs"
      using run by (simp add: tables_to_scan_def)
    have "grouped (length ?tabs) 0 (trace ?st)"
      by (simp add: grouped_start)
    then have "grouped (length ?tabs) (length ?tabs)
        (trace (scan_loop E (classifier_on E opts) ?m ?tabs 0 ?st))"
      by (rule scan_loop_grouped) simp
    with v t show ?thesis by simp
  qed
qed

subsection \<open>The order in which the calls return\<close>

lemma call_ends_Nil [simp]: "call_ends Q [] = []"
  by (simp add: call_ends_def map_filter_simps)

lemma call_ends_Cons [simp]:
  "call_ends Q (ProbeEnd i # tr) = (if Q i then call_ends Q tr else i # call_ends Q tr)"
  "call_ends Q (AIEnd i # tr) = i # call_ends Q tr"
  "call_ends Q (AIStart i # tr) = call_ends Q tr"
  "call_ends Q (ProbeStart i # tr) = call_ends Q tr"
  "call_ends Q (CatalogStart # tr) = call_ends Q tr"
  "call_ends Q (CatalogEnd # tr) = call_ends Q tr"
  by (simp_all add: call_ends_def map_filter_simps)

lemma call_ends_append [simp]: "call_ends Q (xs @ ys) = call_ends Q xs @ call_ends Q ys"
  by (induction xs) (simp_all add: call_ends_def map_filter_simps split: option.splits)

lemma call_ends_starts [simp]: "call_ends Q (map ProbeStart ns) = []"
  by (induction ns) simp_all

lemma call_ends_cong:
  "(\<And>i. ProbeEnd i \<in> set tr \<Longrightarrow> Q i = Q' i) \<Longrightarrow> call_ends Q tr = call_ends Q' tr"
proof (induction tr)
  case Nil
  show ?case by simp
next
  case (Cons e tr)
  then show ?case by (cases e) auto
qed

lemma scanTable_outcome:
  assumes "scanTable E a m t st = (r, st')"
  shows "(task_phase t = Probing \<and> r = None
            \<and> trace st' = trace st @ [ProbeEnd (task_index t)]
            \<and> found st' = found st @ task_findings E a m t)
       \<or> (task_phase t = Probing
            \<and> (\<exists>t'. r = Some t' \<and> task_index t' = task_index t \<and> task_phase t' \<noteq> Probing
                  \<and> task_findings E a m t' = task_findings E a m t)
            \<and> trace st' = trace st @ [ProbeEnd (task_index t), AIStart (task_index t)]
            \<and> found st' = found st)
       \<or> (task_phase t \<noteq> Probing \<and> r = None
            \<and> trace st' = trace st @ [AIEnd (task_index t)]
            \<and> found st' = found st @ task_findings E a m t)"
  using assms
  by (cases "(E, a, m, t, st)" rule: scanTable.cases;
      auto simp: Let_def scanTable_findings_def readable_row_def rls_flag_def
           split: probe.splits option.splits list.splits if_splits)


lemma probing_iff: "j \<in> probing ts \<longleftrightarrow> (\<exists>t \<in> set ts. task_index t = j \<and> task_phase t = Probing)"
  by (auto simp: probing_def)

lemma same_index_same_task:
  assumes "distinct (map task_index ts)" "k < length ts" "t \<in> set ts"
    and "task_index t = task_index (ts ! k)"
  shows "t = ts ! k"
proof -
  from assms(3) obtain n where n: "n < length ts" "ts ! n = t"
    by (auto simp: in_set_conv_nth)
  with assms(2,4) have "map task_index ts ! n = map task_index ts ! k"
    by simp
  moreover have "n < length (map task_index ts)" "k < length (map task_index ts)"
    using assms(2) n(1) by simp_all
  ultimately have "n = k"
    using assms(1) by (simp only: nth_eq_iff_index_eq)
  with n(2) show ?thesis by simp
qed

lemma settle_None:
  assumes d: "distinct (map task_index ts)" and k: "k < length ts"
  shows "distinct (map task_index (settle k None ts))"
    and "set (settle k None ts) \<subseteq> set ts"
    and "task_index (ts ! k) \<notin> task_index ` set (settle k None ts)"
    and "mset (map task_index ts) = add_mset (task_index (ts ! k)) (mset (map task_index (settle k None ts)))"
proof -
  have a: "ts = take k ts @ ts ! k # drop (Suc k) ts"
    using k by (rule id_take_nth_drop)
  have b: "settle k None ts = take k ts @ drop (Suc k) ts"
    by (simp add: settle_def)
  from d have "distinct (map task_index (take k ts @ ts ! k # drop (Suc k) ts))"
    by (subst (asm) a)
  then show "distinct (map task_index (settle k None ts))"
    and "task_index (ts ! k) \<notin> task_index ` set (settle k None ts)"
    by (auto simp: b)
  show "set (settle k None ts) \<subseteq> set ts"
    by (auto simp: b dest: in_set_takeD in_set_dropD)
  have "mset (map task_index ts)
      = mset (map task_index (take k ts @ ts ! k # drop (Suc k) ts))"
    by (subst a) simp
  then show "mset (map task_index ts)
      = add_mset (task_index (ts ! k)) (mset (map task_index (settle k None ts)))"
    by (simp add: b)
qed

lemma settle_Some:
  assumes k: "k < length ts" and i: "task_index t' = task_index (ts ! k)"
  shows "map task_index (settle k (Some t') ts) = map task_index ts"
    and "set (settle k (Some t') ts) \<subseteq> insert t' (set ts)"
    and "t' \<in> set (settle k (Some t') ts)"
proof -
  show "map task_index (settle k (Some t') ts) = map task_index ts"
    using k i by (simp add: settle_def map_update list_update_same_conv)
  show "set (settle k (Some t') ts) \<subseteq> insert t' (set ts)"
    by (simp add: settle_def set_update_subset_insert)
  show "t' \<in> set (settle k (Some t') ts)"
    using k by (simp add: settle_def set_update_memI)
qed


lemma probing_subset: "set ts' \<subseteq> set ts \<Longrightarrow> probing ts' \<subseteq> probing ts"
  by (auto simp: probing_def)

lemma probing_index: "j \<in> probing ts \<Longrightarrow> j \<in> task_index ` set ts"
  by (auto simp: probing_def)

lemma promise_all_finished:
  "distinct (map task_index ts) \<Longrightarrow> (\<forall>t \<in> set ts. task_findings E a m t = G (task_index t)) \<Longrightarrow>
   \<exists>evs. trace (promise_all E a m ts st) = trace st @ evs
       \<and> (\<forall>j. AIStart j \<in> set evs \<longrightarrow> j \<in> probing ts)
       \<and> (\<forall>Q. (\<forall>j \<in> probing ts. Q j \<longleftrightarrow> AIStart j \<in> set evs) \<longrightarrow>
              found (promise_all E a m ts st) = found st @ concat (map G (call_ends Q evs))
              \<and> mset (call_ends Q evs) = mset (map task_index ts))"
proof (induction E a m ts st rule: promise_all.induct)
  case (1 E a m ts st)
  show ?case
  proof (cases "ts = []")
    case True
    then show ?thesis by simp
  next
    case False
    define k where "k = next_choice (pending st) (length ts)"
    define st0 where "st0 = st\<lparr>pending := tl (pending st)\<rparr>"
    obtain r st1 where step: "scanTable E a m (ts ! k) st0 = (r, st1)"
      by (cases "scanTable E a m (ts ! k) st0")
    have k: "k < length ts"
      using False by (simp add: k_def next_choice_less)
    define i where "i = task_index (ts ! k)"
    have tin: "ts ! k \<in> set ts"
      using k by simp
    have G: "task_findings E a m (ts ! k) = G i"
      using "1.prems"(2) tin by (simp add: i_def)
    have unfold: "promise_all E a m ts st = promise_all E a m (settle k r ts) st1"
      using promise_all_step [OF False] step by (simp add: k_def st0_def)
    have ih: "\<exists>evs. trace (promise_all E a m (settle k r ts) st1) = trace st1 @ evs
       \<and> (\<forall>j. AIStart j \<in> set evs \<longrightarrow> j \<in> probing (settle k r ts))
       \<and> (\<forall>Q. (\<forall>j \<in> probing (settle k r ts). Q j \<longleftrightarrow> AIStart j \<in> set evs) \<longrightarrow>
              found (promise_all E a m (settle k r ts) st1) = found st1 @ concat (map G (call_ends Q evs))
              \<and> mset (call_ends Q evs) = mset (map task_index (settle k r ts)))"
      if "distinct (map task_index (settle k r ts))"
        and "\<forall>t \<in> set (settle k r ts). task_findings E a m t = G (task_index t)"
      using "1.IH" [OF False k_def refl] step that by (simp add: st0_def)
    from scanTable_outcome [OF step]
    consider (returns) e where "r = None" "trace st1 = trace st0 @ [e]"
        "found st1 = found st0 @ task_findings E a m (ts ! k)"
        "e = ProbeEnd i \<and> task_phase (ts ! k) = Probing \<or> e = AIEnd i"
      | (asks) t' where "r = Some t'" "task_index t' = i" "task_phase t' \<noteq> Probing"
        "task_phase (ts ! k) = Probing"
        "task_findings E a m t' = task_findings E a m (ts ! k)"
        "trace st1 = trace st0 @ [ProbeEnd i, AIStart i]" "found st1 = found st0"
      by (auto simp: i_def)
    then show ?thesis
    proof cases
      case returns
      note s = settle_None [OF "1.prems"(1) k]
      have inv: "\<forall>t \<in> set (settle k r ts). task_findings E a m t = G (task_index t)"
        using s(2) "1.prems"(2) returns(1) by auto
      from ih [OF _ inv] s(1) returns(1) obtain evs where
        evs: "trace (promise_all E a m (settle k r ts) st1) = trace st1 @ evs"
          "\<And>j. AIStart j \<in> set evs \<Longrightarrow> j \<in> probing (settle k r ts)"
          "\<And>Q. (\<forall>j \<in> probing (settle k r ts). Q j \<longleftrightarrow> AIStart j \<in> set evs) \<Longrightarrow>
              found (promise_all E a m (settle k r ts) st1) = found st1 @ concat (map G (call_ends Q evs))
              \<and> mset (call_ends Q evs) = mset (map task_index (settle k r ts))"
        by auto
      have sub: "probing (settle k r ts) \<subseteq> probing ts"
        using s(2) returns(1) by (intro probing_subset) simp
      have ni: "i \<notin> probing (settle k r ts)"
        using s(3) returns(1) probing_index [of i "settle k r ts"] by (auto simp: i_def)
      then have na: "AIStart i \<notin> set evs"
        using evs(2) by blast
      have 1: "trace (promise_all E a m ts st) = trace st @ (e # evs)"
        using unfold evs(1) returns(2) by (simp add: st0_def)
      have 2: "j \<in> probing ts" if "AIStart j \<in> set (e # evs)" for j
        using that returns(4) evs(2) [of j] sub by auto
      have 3: "found (promise_all E a m ts st) = found st @ concat (map G (call_ends Q (e # evs)))
              \<and> mset (call_ends Q (e # evs)) = mset (map task_index ts)"
        if Q: "\<forall>j \<in> probing ts. Q j \<longleftrightarrow> AIStart j \<in> set (e # evs)" for Q
      proof -
        have "\<forall>j \<in> probing (settle k r ts). Q j \<longleftrightarrow> AIStart j \<in> set evs"
          using Q sub returns(4) by auto
        from evs(3) [OF this] have f:
          "found (promise_all E a m (settle k r ts) st1) = found st1 @ concat (map G (call_ends Q evs))"
          "mset (call_ends Q evs) = mset (map task_index (settle k r ts))"
          by simp_all
        have c: "call_ends Q (e # evs) = i # call_ends Q evs"
        proof (cases "e = AIEnd i")
          case True
          then show ?thesis by simp
        next
          case False
          with returns(4) have e: "e = ProbeEnd i" "task_phase (ts ! k) = Probing"
            by simp_all
          with tin have "i \<in> probing ts"
            by (auto simp: probing_iff i_def)
          with Q e(1) na have "\<not> Q i" by simp
          with e(1) show ?thesis by simp
        qed
        have "found (promise_all E a m ts st) = found st @ G i @ concat (map G (call_ends Q evs))"
          using unfold f(1) returns(3) G by (simp add: st0_def)
        moreover have "mset (i # call_ends Q evs) = mset (map task_index ts)"
          using f(2) s(4) returns(1) by (simp add: i_def)
        ultimately show ?thesis
          by (simp add: c)
      qed
      from 1 2 3 show ?thesis by blast
    next
      case asks
      have ki: "task_index t' = task_index (ts ! k)"
        using asks(2) by (simp add: i_def)
      note s = settle_Some [OF k ki]
      have d: "distinct (map task_index (settle k r ts))"
        using "1.prems"(1) s(1) asks(1) by simp
      have inv: "\<forall>t \<in> set (settle k r ts). task_findings E a m t = G (task_index t)"
        using s(2) "1.prems"(2) asks(1,2,5) G by auto
      from ih [OF d inv] obtain evs where
        evs: "trace (promise_all E a m (settle k r ts) st1) = trace st1 @ evs"
          "\<And>j. AIStart j \<in> set evs \<Longrightarrow> j \<in> probing (settle k r ts)"
          "\<And>Q. (\<forall>j \<in> probing (settle k r ts). Q j \<longleftrightarrow> AIStart j \<in> set evs) \<Longrightarrow>
              found (promise_all E a m (settle k r ts) st1) = found st1 @ concat (map G (call_ends Q evs))
              \<and> mset (call_ends Q evs) = mset (map task_index (settle k r ts))"
        by auto
      have ip: "i \<in> probing ts"
        using tin asks(4) by (auto simp: probing_iff i_def)
      have kl: "k < length (settle k r ts)" "settle k r ts ! k = t'"
        using k asks(1) by (simp_all add: settle_def)
      have ni: "i \<notin> probing (settle k r ts)"
      proof
        assume "i \<in> probing (settle k r ts)"
        then obtain x where x: "x \<in> set (settle k r ts)" "task_index x = i" "task_phase x = Probing"
          by (auto simp: probing_iff)
        from same_index_same_task [OF d kl(1) x(1)] x(2) asks(2) kl(2) have "x = t'"
          by simp
        with x(3) asks(3) show False by simp
      qed
      have sub: "probing (settle k r ts) \<subseteq> probing ts"
      proof
        fix j assume "j \<in> probing (settle k r ts)"
        then obtain x where x: "x \<in> set (settle k r ts)" "task_index x = j" "task_phase x = Probing"
          by (auto simp: probing_iff)
        with asks(3) have "x \<noteq> t'" by auto
        with x(1) s(2) asks(1) have "x \<in> set ts" by auto
        with x(2,3) show "j \<in> probing ts"
          by (auto simp: probing_iff)
      qed
      have 1: "trace (promise_all E a m ts st) = trace st @ (ProbeEnd i # AIStart i # evs)"
        using unfold evs(1) asks(6) by (simp add: st0_def)
      have 2: "j \<in> probing ts" if "AIStart j \<in> set (ProbeEnd i # AIStart i # evs)" for j
        using that ip evs(2) [of j] sub by auto
      have 3: "found (promise_all E a m ts st)
                 = found st @ concat (map G (call_ends Q (ProbeEnd i # AIStart i # evs)))
              \<and> mset (call_ends Q (ProbeEnd i # AIStart i # evs)) = mset (map task_index ts)"
        if Q: "\<forall>j \<in> probing ts. Q j \<longleftrightarrow> AIStart j \<in> set (ProbeEnd i # AIStart i # evs)" for Q
      proof -
        from Q ip have qi: "Q i" by simp
        have "\<forall>j \<in> probing (settle k r ts). Q j \<longleftrightarrow> AIStart j \<in> set evs"
          using Q sub ni by auto
        from evs(3) [OF this] have f:
          "found (promise_all E a m (settle k r ts) st1) = found st1 @ concat (map G (call_ends Q evs))"
          "mset (call_ends Q evs) = mset (map task_index (settle k r ts))"
          by simp_all
        have c: "call_ends Q (ProbeEnd i # AIStart i # evs) = call_ends Q evs"
          using qi by simp
        have "found (promise_all E a m ts st) = found st @ concat (map G (call_ends Q evs))"
          using unfold f(1) asks(7) by (simp add: st0_def)
        moreover have "mset (call_ends Q evs) = mset (map task_index ts)"
          using f(2) s(1) asks(1) by simp
        ultimately show ?thesis
          by (simp only: c)
      qed
      from 1 2 3 show ?thesis by blast
    qed
  qed
qed


lemma started_tasks_index:
  "length ns = length ch \<Longrightarrow> map task_index (map (\<lambda>(k, t). Task k t Probing) (zip ns ch)) = ns"
  by (induction ns ch rule: list_induct2) simp_all

lemma started_tasks_findings:
  assumes "t \<in> set (map (\<lambda>(k, t). Task k t Probing) (zip [i ..< i + length ch] ch))"
    and "ch = take c (drop i tabs)"
  shows "task_findings E a m t = scanTable_findings E a m (tabs ! task_index t)"
proof -
  from assms(1) obtain n where n: "n < length ch" "t = Task (i + n) (ch ! n) Probing"
    by (auto simp: in_set_conv_nth)
  from n(1) assms(2) have "n < c" "i + n < length tabs"
    by auto
  with assms(2) have "ch ! n = tabs ! (i + n)"
    by (simp add: nth_drop)
  with n(2) show ?thesis by simp
qed

lemma scan_loop_finished:
  "\<exists>evs. trace (scan_loop E a m tabs i st) = trace st @ evs
      \<and> (\<forall>j. AIStart j \<in> set evs \<longrightarrow> i \<le> j)
      \<and> (\<forall>Q. (\<forall>j. i \<le> j \<longrightarrow> (Q j \<longleftrightarrow> AIStart j \<in> set evs)) \<longrightarrow>
            found (scan_loop E a m tabs i st)
              = found st @ concat (map (\<lambda>j. scanTable_findings E a m (tabs ! j)) (call_ends Q evs))
            \<and> mset (call_ends Q evs) = mset [i ..< length tabs])"
proof (induction E a m tabs i st rule: scan_loop.induct)
  case (1 E a m tabs i st)
  show ?case
  proof (cases "i < length tabs")
    case False
    then have "scan_loop E a m tabs i st = st"
      by (subst scan_loop.simps) simp
    with False show ?thesis by simp
  next
    case True
    define chunk where "chunk = slice (int i) (int (i + CONCURRENCY_LIMIT)) tabs"
    define numbers where "numbers = [i ..< i + length chunk]"
    define st1 where "st1 = st\<lparr>trace := trace st @ map ProbeStart numbers\<rparr>"
    define ts where "ts = map (\<lambda>(k, t). Task k t Probing) (zip numbers chunk)"
    let ?G = "\<lambda>j. scanTable_findings E a m (tabs ! j)"
    have chunk: "chunk = take CONCURRENCY_LIMIT (drop i tabs)"
      by (simp only: chunk_def slice_chunk)
    have len: "length chunk = min CONCURRENCY_LIMIT (length tabs - i)"
      by (simp add: chunk)
    have idx: "map task_index ts = numbers"
      unfolding ts_def by (rule started_tasks_index) (simp add: numbers_def)
    then have d: "distinct (map task_index ts)"
      by (simp add: numbers_def)
    have inv: "\<forall>t \<in> set ts. task_findings E a m t = ?G (task_index t)"
      using started_tasks_findings [OF _ chunk, of _ E a m]
      by (auto simp: ts_def numbers_def)
    have pr: "probing ts = set numbers"
      unfolding ts_def by (rule probing_started_tasks) (simp add: numbers_def)
    from promise_all_finished [OF d inv, of st1] obtain e1 where
      e1: "trace (promise_all E a m ts st1) = trace st1 @ e1"
        "\<And>j. AIStart j \<in> set e1 \<Longrightarrow> j \<in> probing ts"
        "\<And>Q. (\<forall>j \<in> probing ts. Q j \<longleftrightarrow> AIStart j \<in> set e1) \<Longrightarrow>
            found (promise_all E a m ts st1) = found st1 @ concat (map ?G (call_ends Q e1))
            \<and> mset (call_ends Q e1) = mset (map task_index ts)"
      by auto
    from "1.IH" [OF True chunk_def numbers_def st1_def ts_def] obtain e2 where
      e2: "trace (scan_loop E a m tabs (i + CONCURRENCY_LIMIT) (promise_all E a m ts st1))
            = trace (promise_all E a m ts st1) @ e2"
        "\<And>j. AIStart j \<in> set e2 \<Longrightarrow> i + CONCURRENCY_LIMIT \<le> j"
        "\<And>Q. (\<forall>j. i + CONCURRENCY_LIMIT \<le> j \<longrightarrow> (Q j \<longleftrightarrow> AIStart j \<in> set e2)) \<Longrightarrow>
            found (scan_loop E a m tabs (i + CONCURRENCY_LIMIT) (promise_all E a m ts st1))
              = found (promise_all E a m ts st1) @ concat (map ?G (call_ends Q e2))
            \<and> mset (call_ends Q e2) = mset [i + CONCURRENCY_LIMIT ..< length tabs]"
      by auto
    have unfold: "scan_loop E a m tabs i st
        = scan_loop E a m tabs (i + CONCURRENCY_LIMIT) (promise_all E a m ts st1)"
      using True
      by (subst scan_loop.simps) (simp add: Let_def chunk_def numbers_def st1_def ts_def)
    let ?evs = "map ProbeStart numbers @ e1 @ e2"
    have in1: "i \<le> j \<and> j < i + CONCURRENCY_LIMIT" if "AIStart j \<in> set e1" for j
      using e1(2) [OF that] len by (auto simp: pr numbers_def)
    have 1: "trace (scan_loop E a m tabs i st) = trace st @ ?evs"
      using unfold e1(1) e2(1) by (simp add: st1_def)
    have 2: "i \<le> j" if "AIStart j \<in> set ?evs" for j
      using that in1 [of j] e2(2) [of j] by auto
    have 3: "found (scan_loop E a m tabs i st) = found st @ concat (map ?G (call_ends Q ?evs))
            \<and> mset (call_ends Q ?evs) = mset [i ..< length tabs]"
      if Q: "\<forall>j. i \<le> j \<longrightarrow> (Q j \<longleftrightarrow> AIStart j \<in> set ?evs)" for Q
    proof -
      have "\<forall>j \<in> probing ts. Q j \<longleftrightarrow> AIStart j \<in> set e1"
      proof
        fix j assume "j \<in> probing ts"
        then have j: "i \<le> j" "j < i + CONCURRENCY_LIMIT"
          using len by (auto simp: pr numbers_def)
        with e2(2) [of j] have "AIStart j \<notin> set e2" by auto
        with Q j(1) show "Q j \<longleftrightarrow> AIStart j \<in> set e1" by auto
      qed
      from e1(3) [OF this] have f1:
        "found (promise_all E a m ts st1) = found st1 @ concat (map ?G (call_ends Q e1))"
        "mset (call_ends Q e1) = mset numbers"
        by (simp_all add: idx)
      have "\<forall>j. i + CONCURRENCY_LIMIT \<le> j \<longrightarrow> (Q j \<longleftrightarrow> AIStart j \<in> set e2)"
      proof (intro allI impI)
        fix j assume j: "i + CONCURRENCY_LIMIT \<le> j"
        with in1 [of j] have "AIStart j \<notin> set e1" by auto
        with Q j show "Q j \<longleftrightarrow> AIStart j \<in> set e2" by auto
      qed
      from e2(3) [OF this] have f2:
        "found (scan_loop E a m tabs (i + CONCURRENCY_LIMIT) (promise_all E a m ts st1))
              = found (promise_all E a m ts st1) @ concat (map ?G (call_ends Q e2))"
        "mset (call_ends Q e2) = mset [i + CONCURRENCY_LIMIT ..< length tabs]"
        by simp_all
      have c: "call_ends Q ?evs = call_ends Q e1 @ call_ends Q e2"
        by simp
      have "[i ..< length tabs] = numbers @ [i + CONCURRENCY_LIMIT ..< length tabs]"
      proof (cases "i + CONCURRENCY_LIMIT \<le> length tabs")
        case True
        then have "length chunk = CONCURRENCY_LIMIT"
          using len by simp
        moreover from True obtain d where "length tabs = i + CONCURRENCY_LIMIT + d"
          by (auto simp: le_iff_add)
        ultimately show ?thesis
          by (simp add: numbers_def upt_add_eq_append [of i "i + CONCURRENCY_LIMIT" d])
      next
        case False
        with True len have "i + length chunk = length tabs"
          by simp
        with False show ?thesis
          by (simp add: numbers_def)
      qed
      then have "mset (call_ends Q ?evs) = mset [i ..< length tabs]"
        using f1(2) f2(2) by (simp only: c mset_append)
      moreover have "found (scan_loop E a m tabs i st) = found st @ concat (map ?G (call_ends Q ?evs))"
        using unfold f1(1) f2(1) by (simp add: st1_def)
      ultimately show ?thesis by simp
    qed
    from 1 2 3 show ?thesis by blast
  qed
qed

lemma finished_catalog [simp]:
  "finished [] = []" "finished [CatalogStart, CatalogEnd] = []"
  by (simp_all add: finished_def)

lemma scan_found_finished:
  "vulnerabilities (scanProject E u p sk ak tok opts)
     = findings_in_catalog_order E u p sk ak tok opts
         (map (\<lambda>i. tables_to_scan E u p sk ak tok opts ! i)
            (finished (scan_events E u p sk ak tok opts)))
   \<and> mset (finished (scan_events E u p sk ak tok opts))
       = mset [0 ..< length (tables_to_scan E u p sk ak tok opts)]"
proof -
  consider (clients) "createClient E u sk \<noteq> None \<or> createClient E u ak \<noteq> None"
    | (catalog) "createClient E u sk = None" "createClient E u ak = None"
        "(\<exists>e. executeQuery E tok p = Inl e) \<or> executeQuery E tok p = Inr []"
    | (run) result where "createClient E u sk = None" "createClient E u ak = None"
        "executeQuery E tok p = Inr result" "result \<noteq> []"
    by (cases "executeQuery E tok p") auto
  then show ?thesis
  proof cases
    case clients
    then have "scan_events E u p sk ak tok opts = []"
      by (auto simp: scan_events_def scanProject_run_def Let_def split: option.splits)
    moreover from clients have "tables_to_scan E u p sk ak tok opts = []"
      by (auto simp: tables_to_scan_def split: option.splits sum.splits)
    moreover from clients have "vulnerabilities (scanProject E u p sk ak tok opts) = []"
      by (auto simp: scanProject_def scanProject_run_def Let_def failed_scan_def
               split: option.splits)
    ultimately show ?thesis
      by (simp add: findings_in_catalog_order_def)
  next
    case catalog
    then have "scan_events E u p sk ak tok opts = [CatalogStart, CatalogEnd]"
      by (auto simp: scan_events_def scanProject_run_def Let_def)
    moreover from catalog have "tables_to_scan E u p sk ak tok opts = []"
      by (auto simp: tables_to_scan_def slice_def)
    moreover from catalog have "vulnerabilities (scanProject E u p sk ak tok opts) = []"
      by (auto simp: scanProject_def scanProject_run_def Let_def failed_scan_def)
    ultimately show ?thesis
      by (simp add: findings_in_catalog_order_def)
  next
    case run
    let ?tabs = "slice 0 (case maxTables opts of None \<Rightarrow> 10 | Some n \<Rightarrow> n) (map table_name result)"
    let ?m = "fold (\<lambda>r m. m(table_name r \<mapsto> rls_enabled r)) result Map.empty"
    let ?st = "\<lparr> found = [], trace = [CatalogStart, CatalogEnd], pending = completion_order E \<rparr>"
    let ?a = "classifier_on E opts"
    have v: "vulnerabilities (scanProject E u p sk ak tok opts) = found (scan_loop E ?a ?m ?tabs 0 ?st)"
      using run by (simp add: scanProject_def scanProject_run_def Let_def classifier_on_def)
    have ev: "scan_events E u p sk ak tok opts = trace (scan_loop E ?a ?m ?tabs 0 ?st)"
      using run by (simp add: scan_events_def scanProject_run_def Let_def classifier_on_def)
    have t: "tables_to_scan E u p sk ak tok opts = ?tabs"
      using run by (simp add: tables_to_scan_def)
    have m: "rls_status E p tok = ?m"
      using run by (simp add: rls_status_def)
    from scan_loop_finished [of E ?a ?m ?tabs 0 ?st] obtain evs where
      evs: "trace (scan_loop E ?a ?m ?tabs 0 ?st) = trace ?st @ evs"
        "\<And>Q. (\<forall>j. 0 \<le> j \<longrightarrow> (Q j \<longleftrightarrow> AIStart j \<in> set evs)) \<Longrightarrow>
            found (scan_loop E ?a ?m ?tabs 0 ?st)
              = found ?st @ concat (map (\<lambda>j. scanTable_findings E ?a ?m (?tabs ! j)) (call_ends Q evs))
            \<and> mset (call_ends Q evs) = mset [0 ..< length ?tabs]"
      by blast
    let ?tr = "[CatalogStart, CatalogEnd] @ evs"
    let ?Q = "\<lambda>i. AIStart i \<in> set ?tr"
    have "\<forall>j. 0 \<le> j \<longrightarrow> (?Q j \<longleftrightarrow> AIStart j \<in> set evs)"
      by simp
    from evs(2) [OF this] have f:
      "found (scan_loop E ?a ?m ?tabs 0 ?st)
          = concat (map (\<lambda>j. scanTable_findings E ?a ?m (?tabs ! j)) (call_ends ?Q evs))"
      "mset (call_ends ?Q evs) = mset [0 ..< length ?tabs]"
      by simp_all
    have fin: "finished (scan_events E u p sk ak tok opts) = call_ends ?Q evs"
      using ev evs(1) by (simp add: finished_def)
    from f fin v t m show ?thesis
      by (simp add: findings_in_catalog_order_def comp_def)
  qed
qed

lemma scan_finished_in_order:
  assumes "finished (scan_events E u p sk ak tok opts)
             = [0 ..< length (tables_to_scan E u p sk ak tok opts)]"
  shows "vulnerabilities (scanProject E u p sk ak tok opts)
     = findings_in_catalog_order E u p sk ak tok opts (tables_to_scan E u p sk ak tok opts)"
  using scan_found_finished [of E u p sk ak tok opts] assms
  by (simp add: map_nth)

section \<open>The claims about the scanner\<close>

text \<open>
  C3, as stated: the total never exceeds the configured cap. It fails for a negative
  cap, which \<open>slice\<close> counts from the end of the catalog.
\<close>

theorem total_exceeds_negative_cap:
  "\<not> total_tables (summary (scanProject (example_target []) (js ''https://x.supabase.co'')
         (js ''x'') (js ''service'') (js ''anon'') (js ''token'')
         \<lparr> maxTables = Some (- 1), enableAI = None \<rparr>)) \<le> - 1"
  by code_simp

text \<open>
  C3, amended: on every scan result the total is the sum of the vulnerable and the
  secure tables, neither of which is negative, and when the configured cap (10 when
  none is given) is not negative the total does not exceed it, whatever the catalog
  holds.
\<close>

theorem summary_adds_up_and_is_capped:
  "total_tables (summary (scanProject E u p sk ak tok opts))
     = vulnerable_tables (summary (scanProject E u p sk ak tok opts))
       + secure_tables (summary (scanProject E u p sk ak tok opts))
   \<and> 0 \<le> secure_tables (summary (scanProject E u p sk ak tok opts))
   \<and> (0 \<le> (case maxTables opts of None \<Rightarrow> 10 | Some n \<Rightarrow> n) \<longrightarrow>
        total_tables (summary (scanProject E u p sk ak tok opts))
          \<le> (case maxTables opts of None \<Rightarrow> 10 | Some n \<Rightarrow> n))"
  using scan_summary [of E u p sk ak tok opts] scan_total_cap [of opts E u p sk ak tok]
    scan_secure_nonneg [of E u p sk ak tok opts]
  by blast

theorem summary_adds_up_and_is_capped_witness:
  "(0::int) \<le> (case maxTables \<lparr> maxTables = Some 2, enableAI = None \<rparr> of None \<Rightarrow> 10 | Some n \<Rightarrow> n)
   \<and> total_tables (summary (scanProject (example_target []) (js ''https://x.supabase.co'')
         (js ''x'') (js ''service'') (js ''anon'') (js ''token'')
         \<lparr> maxTables = Some 2, enableAI = None \<rparr>)) \<le> 2"
  using summary_adds_up_and_is_capped [of "example_target []" "js ''https://x.supabase.co''"
         "js ''x''" "js ''service''" "js ''anon''" "js ''token''"
         "\<lparr> maxTables = Some 2, enableAI = None \<rparr>"]
  by simp

text \<open>
  C6, as stated: when the catalog query fails for any reason, the error string of the
  result is not empty. The string is the message of the error that was thrown: when
  \<open>fetch\<close> rejects with an \<open>Error\<close> whose message is the empty string, the scan
  returns \<open>success = false\<close> with the empty string as its error.
\<close>

theorem catalog_failure_without_message:
  "executeQuery silent_target (js ''token'') (js ''x'') = Inl (Error [])
   \<and> success (scanProject silent_target (js ''https://x.supabase.co'') (js ''x'')
        (js ''service'') (js ''anon'') (js ''token'') default_options) = False
   \<and> error (scanProject silent_target (js ''https://x.supabase.co'') (js ''x'')
        (js ''service'') (js ''anon'') (js ''token'') default_options) = Some []"
  by (simp add: scanProject_def scanProject_run_def executeQuery_def silent_target_def
        example_target_def clients_ok_def catalog_silent_def failed_scan_def error_text_def
        default_options_def)

text \<open>
  C6, amended: when the clients are constructed and the catalog query fails
  (\<open>executeQuery\<close> throws), the scan returns \<open>success = false\<close>, no finding, a summary of
  zeros and, as its error, the message of the thrown \<open>Error\<close>, or a fixed text when
  the thrown value is not an \<open>Error\<close>. This string is empty exactly when the thrown
  value is an \<open>Error\<close> whose message is the empty string; on an HTTP error status
  whose body can be read it is the text that \<open>executeQuery\<close> builds from the status
  and the body, which is not empty. The outcome of the reads of the tables never
  changes \<open>success\<close>, and a catalog of zero tables gives \<open>success = true\<close> with zero
  counts and no finding.
\<close>

theorem catalog_failure_aborts_scan:
  "(createClient E u sk = None \<and> createClient E u ak = None
      \<and> executeQuery E tok p = Inl e \<longrightarrow>
      success (scanProject E u p sk ak tok opts) = False
      \<and> vulnerabilities (scanProject E u p sk ak tok opts) = []
      \<and> summary (scanProject E u p sk ak tok opts)
          = \<lparr> total_tables = 0, vulnerable_tables = 0, secure_tables = 0 \<rparr>
      \<and> error (scanProject E u p sk ak tok opts)
          = Some (error_text e (js ''Failed to query database schema via Management API''))
      \<and> (error_text e (js ''Failed to query database schema via Management API'') = []
            \<longleftrightarrow> e = Error [])
      \<and> (management_api E tok p = Resolved r \<and> \<not> ok r \<and> body_text r = Inr b \<longrightarrow>
            error (scanProject E u p sk ak tok opts)
              = Some (js ''Failed to execute query: '' @ number_to_string (status r) @ js '' '' @ b)
            \<and> js ''Failed to execute query: '' @ number_to_string (status r) @ js '' '' @ b \<noteq> []))
   \<and> success (scanProject (E\<lparr>anon_select := f\<rparr>) u p sk ak tok opts)
        = success (scanProject E u p sk ak tok opts)
   \<and> (createClient E u sk = None \<and> createClient E u ak = None
      \<and> executeQuery E tok p = Inr [] \<longrightarrow>
      scanProject E u p sk ak tok opts
        = \<lparr> success = True, vulnerabilities = [],
            summary = \<lparr> total_tables = 0, vulnerable_tables = 0, secure_tables = 0 \<rparr>,
            error = None \<rparr>)"
proof (intro conjI impI)
  assume a: "createClient E u sk = None \<and> createClient E u ak = None \<and> executeQuery E tok p = Inl e"
  then have r: "scanProject E u p sk ak tok opts
      = failed_scan (error_text e (js ''Failed to query database schema via Management API''))"
    by (simp add: scanProject_def scanProject_run_def Let_def)
  show "success (scanProject E u p sk ak tok opts) = False"
    and "vulnerabilities (scanProject E u p sk ak tok opts) = []"
    and "summary (scanProject E u p sk ak tok opts)
          = \<lparr> total_tables = 0, vulnerable_tables = 0, secure_tables = 0 \<rparr>"
    and e: "error (scanProject E u p sk ak tok opts)
          = Some (error_text e (js ''Failed to query database schema via Management API''))"
    by (simp_all add: r failed_scan_def no_tables_def)
  show "error_text e (js ''Failed to query database schema via Management API'') = []
          \<longleftrightarrow> e = Error []"
    by (cases e) (simp_all add: error_text_def js_def)
  assume b: "management_api E tok p = Resolved r \<and> \<not> ok r \<and> body_text r = Inr b"
  with a have "e = Error (js ''Failed to execute query: '' @ number_to_string (status r) @ js '' '' @ b)"
    by (simp add: executeQuery_def)
  with e show "error (scanProject E u p sk ak tok opts)
      = Some (js ''Failed to execute query: '' @ number_to_string (status r) @ js '' '' @ b)"
    by (simp add: error_text_def)
  show "js ''Failed to execute query: '' @ number_to_string (status r) @ js '' '' @ b \<noteq> []"
    by (simp add: js_def)
next
  show "success (scanProject (E\<lparr>anon_select := f\<rparr>) u p sk ak tok opts)
        = success (scanProject E u p sk ak tok opts)"
    by (rule scan_success_probe_independent)
next
  assume "createClient E u sk = None \<and> createClient E u ak = None \<and> executeQuery E tok p = Inr []"
  then show "scanProject E u p sk ak tok opts
        = \<lparr> success = True, vulnerabilities = [],
            summary = \<lparr> total_tables = 0, vulnerable_tables = 0, secure_tables = 0 \<rparr>,
            error = None \<rparr>"
    by (simp add: scanProject_def scanProject_run_def Let_def no_tables_def)
qed

theorem catalog_failure_aborts_scan_witness:
  "createClient unreachable_target (js ''https://x.supabase.co'') (js ''service'') = None
   \<and> createClient unreachable_target (js ''https://x.supabase.co'') (js ''anon'') = None
   \<and> executeQuery unreachable_target (js ''token'') (js ''x'')
        = Inl (Error (js ''Failed to execute query: 403 forbidden''))
   \<and> management_api unreachable_target (js ''token'') (js ''x'')
        = Resolved (Response False 403 (Inr (js ''forbidden'')) (Inl (Error (js ''Unexpected token''))))
   \<and> success (scanProject unreachable_target (js ''https://x.supabase.co'') (js ''x'')
        (js ''service'') (js ''anon'') (js ''token'') default_options) = False
   \<and> error (scanProject unreachable_target (js ''https://x.supabase.co'') (js ''x'')
        (js ''service'') (js ''anon'') (js ''token'') default_options)
       = Some (js ''Failed to execute query: 403 forbidden'')
   \<and> js ''Failed to execute query: 403 forbidden'' \<noteq> []
   \<and> createClient empty_target (js ''https://x.supabase.co'') (js ''service'') = None
   \<and> createClient empty_target (js ''https://x.supabase.co'') (js ''anon'') = None
   \<and> executeQuery empty_target (js ''token'') (js ''x'') = Inr []
   \<and> success (scanProject empty_target (js ''https://x.supabase.co'') (js ''x'')
        (js ''service'') (js ''anon'') (js ''token'') default_options) = True"
proof -
  have c1: "createClient unreachable_target (js ''https://x.supabase.co'') (js ''service'') = None"
    and c2: "createClient unreachable_target (js ''https://x.supabase.co'') (js ''anon'') = None"
    and c3: "createClient empty_target (js ''https://x.supabase.co'') (js ''service'') = None"
    and c4: "createClient empty_target (js ''https://x.supabase.co'') (js ''anon'') = None"
    by (simp_all add: unreachable_target_def empty_target_def example_target_def clients_ok_def)
  have q: "executeQuery unreachable_target (js ''token'') (js ''x'')
        = Inl (Error (js ''Failed to execute query: 403 forbidden''))"
    by code_simp
  have m: "management_api unreachable_target (js ''token'') (js ''x'')
        = Resolved (Response False 403 (Inr (js ''forbidden'')) (Inl (Error (js ''Unexpected token''))))"
    by (simp add: unreachable_target_def example_target_def catalog_denied_def)
  have z: "executeQuery empty_target (js ''token'') (js ''x'') = Inr []"
    by (simp add: executeQuery_def empty_target_def example_target_def catalog_answer_def)
  have ne: "js ''Failed to execute query: 403 forbidden'' \<noteq> []"
    by (simp add: js_def)
  from catalog_failure_aborts_scan [of unreachable_target "js ''https://x.supabase.co''"
      "js ''service''" "js ''anon''" "js ''token''" "js ''x''"
      "Error (js ''Failed to execute query: 403 forbidden'')" default_options
      "Response False 403 (Inr (js ''forbidden'')) (Inl (Error (js ''Unexpected token'')))"
      "js ''forbidden''" example_read]
    catalog_failure_aborts_scan [of empty_target "js ''https://x.supabase.co''"
      "js ''service''" "js ''anon''" "js ''token''" "js ''x''" NonError default_options
      "Response False 403 (Inr (js ''forbidden'')) (Inl (Error (js ''Unexpected token'')))"
      "js ''forbidden''" example_read]
    c1 c2 c3 c4 q m z ne
  show ?thesis
    by (simp add: error_text_def)
qed

text \<open>
  C2: one call of \<open>scanTable\<close>, run to its end from any state. When the anonymous read
  returns without error and with at least one row, exactly one finding is appended: it
  names the table, is critical, lists the columns of the first row, carries that row,
  and its issue text follows the protection flag of the table. When the read throws,
  reports an error, or returns no row, nothing is appended. The outcome of the reads
  never changes the \<open>error\<close> of the scan result.
\<close>

theorem scanTable_emits_one_critical_finding:
  "(anon_select E t = ProbeReturns None (Some (first_row # other_rows)) \<longrightarrow>
      (\<exists>f. found (promise_all E a m [Task i t Probing] st) = found st @ [f]
          \<and> table f = t \<and> severity f = Critical
          \<and> leaked_fields f = Some (map fst first_row)
          \<and> sample_data f = Some first_row
          \<and> issue f = (if m t = Some True
                       then js ''RLS is enabled but policy is too permissive (public access)''
                       else js ''Anonymous users can read data from this table'')))
   \<and> ((\<exists>e. anon_select E t = ProbeThrows e)
        \<or> (\<exists>e d. anon_select E t = ProbeReturns (Some e) d)
        \<or> (\<exists>x. anon_select E t = ProbeReturns x None)
        \<or> (\<exists>x. anon_select E t = ProbeReturns x (Some [])) \<longrightarrow>
      found (promise_all E a m [Task i t Probing] st) = found st)
   \<and> error (scanProject (E\<lparr>anon_select := g\<rparr>) u p sk ak tok opts)
        = error (scanProject E u p sk ak tok opts)"
proof (intro conjI impI)
  assume "anon_select E t = ProbeReturns None (Some (first_row # other_rows))"
  then have "scanTable_findings E a m t
      = [make_finding t (map fst first_row) first_row (rls_flag m t)
           (analyzeWithAI E a t (map fst first_row) first_row (rls_flag m t))]"
    by (simp add: scanTable_findings_def readable_row_def)
  then show "\<exists>f. found (promise_all E a m [Task i t Probing] st) = found st @ [f]
          \<and> table f = t \<and> severity f = Critical
          \<and> leaked_fields f = Some (map fst first_row)
          \<and> sample_data f = Some first_row
          \<and> issue f = (if m t = Some True
                       then js ''RLS is enabled but policy is too permissive (public access)''
                       else js ''Anonymous users can read data from this table'')"
    by (auto simp: single_task_found make_finding_def rls_flag_def split: option.splits)
next
  assume "(\<exists>e. anon_select E t = ProbeThrows e)
        \<or> (\<exists>e d. anon_select E t = ProbeReturns (Some e) d)
        \<or> (\<exists>x. anon_select E t = ProbeReturns x None)
        \<or> (\<exists>x. anon_select E t = ProbeReturns x (Some []))"
  then have "scanTable_findings E a m t = []"
    by (auto simp: scanTable_findings_def readable_row_def split: option.splits)
  then show "found (promise_all E a m [Task i t Probing] st) = found st"
    by (simp add: single_task_found)
next
  show "error (scanProject (E\<lparr>anon_select := g\<rparr>) u p sk ak tok opts)
        = error (scanProject E u p sk ak tok opts)"
    by (rule scan_error_probe_independent)
qed

theorem scanTable_emits_one_critical_finding_witness:
  "anon_select (example_target []) (js ''user_secrets'') = ProbeReturns None (Some (secrets_row # []))
   \<and> (\<exists>f. found (promise_all (example_target []) False Map.empty
               [Task 0 (js ''user_secrets'') Probing] \<lparr> found = [], trace = [], pending = [] \<rparr>) = [f]
          \<and> table f = js ''user_secrets'' \<and> severity f = Critical
          \<and> leaked_fields f = Some [js ''id'', js ''secret_data'']
          \<and> sample_data f = Some secrets_row
          \<and> issue f = js ''Anonymous users can read data from this table'')
   \<and> (\<exists>x. anon_select (example_target []) (js ''orders'') = ProbeReturns x (Some []))
   \<and> found (promise_all (example_target []) False [js ''orders'' \<mapsto> True]
               [Task 0 (js ''orders'') Probing] \<lparr> found = [], trace = [], pending = [] \<rparr>) = []"
proof -
  have a: "anon_select (example_target []) (js ''user_secrets'') = ProbeReturns None (Some (secrets_row # []))"
    by (simp add: example_target_def example_read_def)
  have b: "\<exists>x. anon_select (example_target []) (js ''orders'') = ProbeReturns x (Some [])"
    by (simp add: example_target_def example_read_def js_def)
  have c: "map fst secrets_row = [js ''id'', js ''secret_data'']"
    by (simp add: secrets_row_def)
  from scanTable_emits_one_critical_finding [of "example_target []" "js ''user_secrets''"
      secrets_row "[]" False Map.empty 0 "\<lparr> found = [], trace = [], pending = [] \<rparr>"]
    scanTable_emits_one_critical_finding [of "example_target []" "js ''orders''"
      secrets_row "[]" False "[js ''orders'' \<mapsto> True]" 0 "\<lparr> found = [], trace = [], pending = [] \<rparr>"]
    a b c
  show ?thesis
    by simp
qed

text \<open>
  C7, as stated: the finding list is in the order of the catalog and does not depend
  on the order in which the reads of a group complete. On the example target the two
  leaking tables are in one group; when the read of \<open>user_secrets\<close> completes first
  its finding comes first, against the order of the catalog.
\<close>

theorem findings_follow_completion_order:
  "map table (vulnerabilities (scanProject (example_target [2]) (js ''https://x.supabase.co'')
       (js ''x'') (js ''service'') (js ''anon'') (js ''token'') default_options))
     = [js ''user_secrets'', js ''profiles'']
   \<and> map table (vulnerabilities (scanProject (example_target []) (js ''https://x.supabase.co'')
       (js ''x'') (js ''service'') (js ''anon'') (js ''token'') default_options))
     = [js ''profiles'', js ''user_secrets'']
   \<and> map table_name example_catalog = [js ''orders'', js ''profiles'', js ''user_secrets'']"
  by code_simp

text \<open>
  C7, amended: for a fixed catalog and fixed outcomes of the reads, the finding list is
  the list of the findings of the scanned tables in the order in which their calls of
  \<open>scanTable\<close> returned, where every call returns exactly once (a table whose read is
  no leak adds nothing). It is the concatenation, group after group in the order of
  the catalog, of the findings of each group of five tables; the findings as a multiset
  and the summary are the same for every completion order; and the list is in the
  order of the catalog whenever the calls return in the order of the catalog, and
  whenever the event loop always resumes the first of the waiting calls.
\<close>

theorem findings_grouped_in_catalog_order:
  "vulnerabilities (scanProject E u p sk ak tok opts)
     = findings_in_catalog_order E u p sk ak tok opts
         (map (\<lambda>i. tables_to_scan E u p sk ak tok opts ! i)
            (finished (scan_events E u p sk ak tok opts)))
   \<and> mset (finished (scan_events E u p sk ak tok opts))
       = mset [0 ..< length (tables_to_scan E u p sk ak tok opts)]
   \<and> (\<exists>gs. vulnerabilities (scanProject E u p sk ak tok opts) = concat gs
      \<and> list_all2 (\<lambda>g c. mset g = mset (findings_in_catalog_order E u p sk ak tok opts c))
           gs (chunks CONCURRENCY_LIMIT (tables_to_scan E u p sk ak tok opts)))
   \<and> mset (vulnerabilities (scanProject (E\<lparr>completion_order := order\<rparr>) u p sk ak tok opts))
       = mset (vulnerabilities (scanProject E u p sk ak tok opts))
   \<and> summary (scanProject (E\<lparr>completion_order := order\<rparr>) u p sk ak tok opts)
       = summary (scanProject E u p sk ak tok opts)
   \<and> (finished (scan_events E u p sk ak tok opts)
         = [0 ..< length (tables_to_scan E u p sk ak tok opts)] \<longrightarrow>
        vulnerabilities (scanProject E u p sk ak tok opts)
          = findings_in_catalog_order E u p sk ak tok opts (tables_to_scan E u p sk ak tok opts))
   \<and> (completion_order E = [] \<longrightarrow>
        vulnerabilities (scanProject E u p sk ak tok opts)
          = findings_in_catalog_order E u p sk ak tok opts (tables_to_scan E u p sk ak tok opts))"
  using scan_found_finished [of E u p sk ak tok opts] scan_found_groups [of E u p sk ak tok opts]
    scan_order_mset scan_order_summary
    scan_finished_in_order [of E u p sk ak tok opts] scan_in_order [of E u p sk ak tok opts]
  by blast

theorem findings_grouped_in_catalog_order_witness:
  "finished (scan_events (example_target [0, 0, 0]) (js ''https://x.supabase.co'')
         (js ''x'') (js ''service'') (js ''anon'') (js ''token'') default_options)
      = [0 ..< length (tables_to_scan (example_target [0, 0, 0]) (js ''https://x.supabase.co'')
         (js ''x'') (js ''service'') (js ''anon'') (js ''token'') default_options)]
   \<and> vulnerabilities (scanProject (example_target [0, 0, 0]) (js ''https://x.supabase.co'')
         (js ''x'') (js ''service'') (js ''anon'') (js ''token'') default_options)
      = findings_in_catalog_order (example_target [0, 0, 0]) (js ''https://x.supabase.co'')
         (js ''x'') (js ''service'') (js ''anon'') (js ''token'') default_options
         [js ''orders'', js ''profiles'', js ''user_secrets'']
   \<and> finished (scan_events (example_target [2]) (js ''https://x.supabase.co'')
         (js ''x'') (js ''service'') (js ''anon'') (js ''token'') default_options) = [2, 0, 1]
   \<and> vulnerabilities (scanProject (example_target [2]) (js ''https://x.supabase.co'')
         (js ''x'') (js ''service'') (js ''anon'') (js ''token'') default_options)
      = findings_in_catalog_order (example_target [2]) (js ''https://x.supabase.co'')
         (js ''x'') (js ''service'') (js ''anon'') (js ''token'') default_options
         [js ''user_secrets'', js ''orders'', js ''profiles'']
   \<and> completion_order (example_target []) = []
   \<and> vulnerabilities (scanProject (example_target []) (js ''https://x.supabase.co'')
         (js ''x'') (js ''service'') (js ''anon'') (js ''token'') default_options)
      = findings_in_catalog_order (example_target []) (js ''https://x.supabase.co'')
         (js ''x'') (js ''service'') (js ''anon'') (js ''token'') default_options
         [js ''orders'', js ''profiles'', js ''user_secrets'']
   \<and> mset (vulnerabilities (scanProject ((example_target [])\<lparr>completion_order := [2]\<rparr>)
         (js ''https://x.supabase.co'') (js ''x'') (js ''service'') (js ''anon'') (js ''token'')
         default_options))
      = mset (vulnerabilities (scanProject (example_target []) (js ''https://x.supabase.co'')
         (js ''x'') (js ''service'') (js ''anon'') (js ''token'') default_options))"
proof -
  let ?u = "js ''https://x.supabase.co''"
  have a: "completion_order (example_target []) = []"
    by (simp add: example_target_def)
  have b: "tables_to_scan (example_target order) ?u
         (js ''x'') (js ''service'') (js ''anon'') (js ''token'') default_options
      = [js ''orders'', js ''profiles'', js ''user_secrets'']" for order
    by (simp add: tables_to_scan_def example_target_def clients_ok_def executeQuery_def
          catalog_answer_def example_catalog_def default_options_def slice_def)
  have c: "finished (scan_events (example_target [0, 0, 0]) ?u
         (js ''x'') (js ''service'') (js ''anon'') (js ''token'') default_options) = [0, 1, 2]"
    by code_simp
  have d: "finished (scan_events (example_target [2]) ?u
         (js ''x'') (js ''service'') (js ''anon'') (js ''token'') default_options) = [2, 0, 1]"
    by code_simp
  have e: "[0 ..< 3] = [0, 1, (2::nat)]"
    by (simp add: upt_rec)
  note t1 = findings_grouped_in_catalog_order [of "example_target [0, 0, 0]" ?u
      "js ''x''" "js ''service''" "js ''anon''" "js ''token''" default_options "[2]"]
  note t2 = findings_grouped_in_catalog_order [of "example_target [2]" ?u
      "js ''x''" "js ''service''" "js ''anon''" "js ''token''" default_options "[2]"]
  note t3 = findings_grouped_in_catalog_order [of "example_target []" ?u
      "js ''x''" "js ''service''" "js ''anon''" "js ''token''" default_options "[2]"]
  note exact = t2 [THEN conjunct1]
  note in_order = t1 [THEN conjunct2, THEN conjunct2, THEN conjunct2, THEN conjunct2,
      THEN conjunct2, THEN conjunct1, rule_format]
  note unscheduled = t3 [THEN conjunct2, THEN conjunct2, THEN conjunct2, THEN conjunct2,
      THEN conjunct2, THEN conjunct2, rule_format]
  note same_findings = t3 [THEN conjunct2, THEN conjunct2, THEN conjunct2, THEN conjunct1]
  from b [of "[0, 0, 0]"] c e have z: "finished (scan_events (example_target [0, 0, 0]) ?u
         (js ''x'') (js ''service'') (js ''anon'') (js ''token'') default_options)
      = [0 ..< length (tables_to_scan (example_target [0, 0, 0]) ?u
         (js ''x'') (js ''service'') (js ''anon'') (js ''token'') default_options)]"
    by simp
  from in_order [OF z] have 1: "vulnerabilities (scanProject (example_target [0, 0, 0]) ?u
         (js ''x'') (js ''service'') (js ''anon'') (js ''token'') default_options)
      = findings_in_catalog_order (example_target [0, 0, 0]) ?u
         (js ''x'') (js ''service'') (js ''anon'') (js ''token'') default_options
         [js ''orders'', js ''profiles'', js ''user_secrets'']"
    by (simp only: b)
  have n: "map (\<lambda>i. [js ''orders'', js ''profiles'', js ''user_secrets''] ! i) [2, 0, 1]
      = [js ''user_secrets'', js ''orders'', js ''profiles'']"
    by simp
  from exact have 2: "vulnerabilities (scanProject (example_target [2]) ?u
         (js ''x'') (js ''service'') (js ''anon'') (js ''token'') default_options)
      = findings_in_catalog_order (example_target [2]) ?u
         (js ''x'') (js ''service'') (js ''anon'') (js ''token'') default_options
         [js ''user_secrets'', js ''orders'', js ''profiles'']"
    by (simp only: b d n)
  from unscheduled [OF a] have 3: "vulnerabilities (scanProject (example_target []) ?u
         (js ''x'') (js ''service'') (js ''anon'') (js ''token'') default_options)
      = findings_in_catalog_order (example_target []) ?u
         (js ''x'') (js ''service'') (js ''anon'') (js ''token'') default_options
         [js ''orders'', js ''profiles'', js ''user_secrets'']"
    by (simp only: b)
  note 4 = same_findings
  from z 1 d 2 a 3 4 show ?thesis
    by (intro conjI)
qed

text \<open>
  C9: in the events of every scan, after any prefix at most five reads have started
  and not yet ended; when the read of table number \<open>j\<close> starts, the catalog query has
  ended and so has the read of every table of an earlier group of five (a table
  number \<open>a\<close> with \<open>a div 5 < j div 5\<close>); and the reads that start and the reads that
  end are those of the tables to scan.
\<close>

theorem at_most_five_reads_in_flight:
  "CONCURRENCY_LIMIT = 5
   \<and> (\<forall>k. card (in_flight (take k (scan_events E u p sk ak tok opts))) \<le> 5)
   \<and> (\<forall>pos j. pos < length (scan_events E u p sk ak tok opts)
          \<and> scan_events E u p sk ak tok opts ! pos = ProbeStart j \<longrightarrow>
          CatalogEnd \<in> set (take pos (scan_events E u p sk ak tok opts))
          \<and> (\<forall>a. a div 5 < j div 5 \<longrightarrow>
                ProbeEnd a \<in> set (take pos (scan_events E u p sk ak tok opts))))
   \<and> started (scan_events E u p sk ak tok opts)
        = {0 ..< length (tables_to_scan E u p sk ak tok opts)}
   \<and> ended (scan_events E u p sk ak tok opts)
        = {0 ..< length (tables_to_scan E u p sk ak tok opts)}"
proof -
  let ?tr = "scan_events E u p sk ak tok opts"
  from scan_events_cases [of E u p sk ak tok opts]
  consider (none) "?tr = []" "tables_to_scan E u p sk ak tok opts = []"
    | (catalog) "?tr = [CatalogStart, CatalogEnd]" "tables_to_scan E u p sk ak tok opts = []"
    | (run) "grouped (length (tables_to_scan E u p sk ak tok opts))
         (length (tables_to_scan E u p sk ak tok opts)) ?tr"
    by blast
  then have "grouped (length (tables_to_scan E u p sk ak tok opts))
         (length (tables_to_scan E u p sk ak tok opts)) ?tr
      \<or> (?tr = [] \<and> tables_to_scan E u p sk ak tok opts = [])"
    using grouped_start [of 0] by cases (auto simp: grouped_def)
  then show ?thesis
  proof
    assume g: "grouped (length (tables_to_scan E u p sk ak tok opts))
         (length (tables_to_scan E u p sk ak tok opts)) ?tr"
    then show ?thesis
      unfolding grouped_def by (simp add: CONCURRENCY_LIMIT_def ended_iff)
  next
    assume "?tr = [] \<and> tables_to_scan E u p sk ak tok opts = []"
    then show ?thesis
      by (simp add: CONCURRENCY_LIMIT_def in_flight_def started_def ended_def map_filter_simps)
  qed
qed

theorem at_most_five_reads_in_flight_witness:
  "12 < length (scan_events (wide_target [3, 1]) (js ''https://x.supabase.co'') (js ''x'')
           (js ''service'') (js ''anon'') (js ''token'') fifty_tables)
   \<and> scan_events (wide_target [3, 1]) (js ''https://x.supabase.co'') (js ''x'')
           (js ''service'') (js ''anon'') (js ''token'') fifty_tables ! 12 = ProbeStart 5
   \<and> (0::nat) div 5 < 5 div 5
   \<and> CatalogEnd \<in> set (take 12 (scan_events (wide_target [3, 1]) (js ''https://x.supabase.co'')
           (js ''x'') (js ''service'') (js ''anon'') (js ''token'') fifty_tables))
   \<and> ProbeEnd 0 \<in> set (take 12 (scan_events (wide_target [3, 1]) (js ''https://x.supabase.co'')
           (js ''x'') (js ''service'') (js ''anon'') (js ''token'') fifty_tables))
   \<and> card (in_flight (take 7 (scan_events (wide_target [3, 1]) (js ''https://x.supabase.co'')
           (js ''x'') (js ''service'') (js ''anon'') (js ''token'') fifty_tables))) \<le> 5
   \<and> length (tables_to_scan (wide_target [3, 1]) (js ''https://x.supabase.co'')
           (js ''x'') (js ''service'') (js ''anon'') (js ''token'') fifty_tables) = 12"
proof -
  let ?tr = "scan_events (wide_target [3, 1]) (js ''https://x.supabase.co'') (js ''x'')
           (js ''service'') (js ''anon'') (js ''token'') fifty_tables"
  have a: "12 < length ?tr" by code_simp
  have b: "?tr ! 12 = ProbeStart 5" by code_simp
  have c: "length (tables_to_scan (wide_target [3, 1]) (js ''https://x.supabase.co'')
           (js ''x'') (js ''service'') (js ''anon'') (js ''token'') fifty_tables) = 12"
    by code_simp
  have d: "(0::nat) div 5 < 5 div 5" by simp
  from at_most_five_reads_in_flight [of "wide_target [3, 1]" "js ''https://x.supabase.co''"
      "js ''x''" "js ''service''" "js ''anon''" "js ''token''" fifty_tables]
  have "(\<forall>k. card (in_flight (take k ?tr)) \<le> 5)"
    and "\<forall>pos j. pos < length ?tr \<and> ?tr ! pos = ProbeStart j \<longrightarrow>
          CatalogEnd \<in> set (take pos ?tr)
          \<and> (\<forall>a. a div 5 < j div 5 \<longrightarrow> ProbeEnd a \<in> set (take pos ?tr))"
    by blast+
  with a b c d show ?thesis by blast
qed

text \<open>
  C10: when the classifier is not configured, or its request is rejected, or its reply
  has no text block first, or the text holds no brace pair, or \<open>JSON.parse\<close> throws, a
  readable table still gives its finding, with no \<open>ai_analysis\<close> and otherwise as it
  would be with an analysis. Changing the API key, the replies of the classifier and
  the parser changes neither the findings without their annotation (as a multiset), nor
  the summary, nor \<open>success\<close>. Without an API key every finding is without
  \<open>ai_analysis\<close>, and the scan succeeds when the catalog query does.
\<close>

theorem classifier_only_annotates:
  "(anon_select E t = ProbeReturns None (Some (first_row # other_rows))
      \<and> (\<not> anthropic
          \<or> (\<exists>e. messages_create E t (map fst first_row) first_row (rls_flag m t) = AIRejects e)
          \<or> messages_create E t (map fst first_row) first_row (rls_flag m t) = AIMessage []
          \<or> (\<exists>bs. messages_create E t (map fst first_row) first_row (rls_flag m t)
                  = AIMessage (OtherBlock # bs))
          \<or> (\<exists>txt bs. messages_create E t (map fst first_row) first_row (rls_flag m t)
                  = AIMessage (TextBlock txt # bs)
                \<and> (json_match txt = None
                    \<or> (\<exists>mt. json_match txt = Some mt \<and> JSON_parse E mt = None)))) \<longrightarrow>
      found (promise_all E anthropic m [Task i t Probing] st)
        = found st @ [make_finding t (map fst first_row) first_row (rls_flag m t) None]
      \<and> make_finding t (map fst first_row) first_row (rls_flag m t) None
        = without_annotation (make_finding t (map fst first_row) first_row (rls_flag m t) x)
      \<and> ai_analysis (make_finding t (map fst first_row) first_row (rls_flag m t) None) = None)
   \<and> mset (map without_annotation (vulnerabilities
        (scanProject (E\<lparr>ANTHROPIC_API_KEY := k, messages_create := mc, JSON_parse := jp\<rparr>)
           u p sk ak tok opts)))
       = mset (map without_annotation (vulnerabilities (scanProject E u p sk ak tok opts)))
   \<and> summary (scanProject (E\<lparr>ANTHROPIC_API_KEY := k, messages_create := mc, JSON_parse := jp\<rparr>)
           u p sk ak tok opts)
       = summary (scanProject E u p sk ak tok opts)
   \<and> success (scanProject (E\<lparr>ANTHROPIC_API_KEY := k, messages_create := mc, JSON_parse := jp\<rparr>)
           u p sk ak tok opts)
       = success (scanProject E u p sk ak tok opts)
   \<and> (ANTHROPIC_API_KEY E = None \<longrightarrow>
        (\<forall>f \<in> set (vulnerabilities (scanProject E u p sk ak tok opts)). ai_analysis f = None)
        \<and> (createClient E u sk = None \<and> createClient E u ak = None
            \<and> executeQuery E tok p = Inr rows \<longrightarrow>
            success (scanProject E u p sk ak tok opts)))"
proof (intro conjI impI ballI)
  assume a: "anon_select E t = ProbeReturns None (Some (first_row # other_rows))
      \<and> (\<not> anthropic
          \<or> (\<exists>e. messages_create E t (map fst first_row) first_row (rls_flag m t) = AIRejects e)
          \<or> messages_create E t (map fst first_row) first_row (rls_flag m t) = AIMessage []
          \<or> (\<exists>bs. messages_create E t (map fst first_row) first_row (rls_flag m t)
                  = AIMessage (OtherBlock # bs))
          \<or> (\<exists>txt bs. messages_create E t (map fst first_row) first_row (rls_flag m t)
                  = AIMessage (TextBlock txt # bs)
                \<and> (json_match txt = None
                    \<or> (\<exists>mt. json_match txt = Some mt \<and> JSON_parse E mt = None))))"
  then have "analyzeWithAI E anthropic t (map fst first_row) first_row (rls_flag m t) = None"
    by (intro analyzeWithAI_degrades) blast
  with a show "found (promise_all E anthropic m [Task i t Probing] st)
        = found st @ [make_finding t (map fst first_row) first_row (rls_flag m t) None]"
    by (simp add: single_task_found scanTable_findings_def readable_row_def)
  show "make_finding t (map fst first_row) first_row (rls_flag m t) None
        = without_annotation (make_finding t (map fst first_row) first_row (rls_flag m t) x)"
    by (simp add: without_annotation_make_finding)
  show "ai_analysis (make_finding t (map fst first_row) first_row (rls_flag m t) None) = None"
    by (simp add: make_finding_def)
next
  show "mset (map without_annotation (vulnerabilities
        (scanProject (E\<lparr>ANTHROPIC_API_KEY := k, messages_create := mc, JSON_parse := jp\<rparr>)
           u p sk ak tok opts)))
       = mset (map without_annotation (vulnerabilities (scanProject E u p sk ak tok opts)))"
    by (rule scan_core_classifier_independent)
next
  show "summary (scanProject (E\<lparr>ANTHROPIC_API_KEY := k, messages_create := mc, JSON_parse := jp\<rparr>)
           u p sk ak tok opts)
       = summary (scanProject E u p sk ak tok opts)"
    by (rule scan_summary_classifier_independent)
next
  show "success (scanProject (E\<lparr>ANTHROPIC_API_KEY := k, messages_create := mc, JSON_parse := jp\<rparr>)
           u p sk ak tok opts)
       = success (scanProject E u p sk ak tok opts)"
    by (rule scan_success_classifier_independent)
next
  fix f
  assume "ANTHROPIC_API_KEY E = None"
    and "f \<in> set (vulnerabilities (scanProject E u p sk ak tok opts))"
  then show "ai_analysis f = None"
    by (intro scan_unconfigured [of E f u p sk ak tok opts]) (simp_all add: truthy_def)
next
  assume "createClient E u sk = None \<and> createClient E u ak = None
            \<and> executeQuery E tok p = Inr rows"
  then show "success (scanProject E u p sk ak tok opts)"
    by (intro scan_succeeds [of E u sk ak tok p rows]) simp_all
qed

theorem classifier_only_annotates_witness:
  "anon_select configured_target (js ''user_secrets'') = ProbeReturns None (Some (secrets_row # []))
   \<and> (\<exists>e. messages_create configured_target (js ''user_secrets'') (map fst secrets_row) secrets_row
          (rls_flag Map.empty (js ''user_secrets'')) = AIRejects e)
   \<and> found (promise_all configured_target True Map.empty [Task 0 (js ''user_secrets'') Probing]
        \<lparr> found = [], trace = [], pending = [] \<rparr>)
      = [make_finding (js ''user_secrets'') (map fst secrets_row) secrets_row
           (rls_flag Map.empty (js ''user_secrets'')) None]
   \<and> ANTHROPIC_API_KEY (example_target []) = None
   \<and> map ai_analysis (vulnerabilities (scanProject (example_target []) (js ''https://x.supabase.co'')
         (js ''x'') (js ''service'') (js ''anon'') (js ''token'') default_options)) = [None, None]
   \<and> createClient (example_target []) (js ''https://x.supabase.co'') (js ''service'') = None
   \<and> createClient (example_target []) (js ''https://x.supabase.co'') (js ''anon'') = None
   \<and> executeQuery (example_target []) (js ''token'') (js ''x'') = Inr example_catalog
   \<and> success (scanProject (example_target []) (js ''https://x.supabase.co'')
         (js ''x'') (js ''service'') (js ''anon'') (js ''token'') default_options)"
proof -
  let ?r = "scanProject (example_target []) (js ''https://x.supabase.co'')
         (js ''x'') (js ''service'') (js ''anon'') (js ''token'') default_options"
  have a: "anon_select configured_target (js ''user_secrets'') = ProbeReturns None (Some (secrets_row # []))"
    by (simp add: configured_target_def example_target_def example_read_def)
  have b: "\<exists>e. messages_create configured_target (js ''user_secrets'') (map fst secrets_row) secrets_row
          (rls_flag Map.empty (js ''user_secrets'')) = AIRejects e"
    by (simp add: configured_target_def example_target_def classifier_down_def)
  have c: "ANTHROPIC_API_KEY (example_target []) = None"
    and d: "createClient (example_target []) (js ''https://x.supabase.co'') (js ''service'') = None"
    and e: "createClient (example_target []) (js ''https://x.supabase.co'') (js ''anon'') = None"
    by (simp_all add: example_target_def clients_ok_def)
  have q: "executeQuery (example_target []) (js ''token'') (js ''x'') = Inr example_catalog"
    by (simp add: executeQuery_def example_target_def catalog_answer_def)
  have l: "length (vulnerabilities ?r) = 2"
    by code_simp
  note w1 = classifier_only_annotates [of configured_target "js ''user_secrets''" secrets_row "[]"
      True Map.empty 0 "\<lparr> found = [], trace = [], pending = [] \<rparr>", THEN conjunct1]
  note w2 = classifier_only_annotates [of "example_target []" "js ''user_secrets''" secrets_row "[]"
      False Map.empty 0 "\<lparr> found = [], trace = [], pending = [] \<rparr>" _ _ _ _
      "js ''https://x.supabase.co''" "js ''x''" "js ''service''" "js ''anon''" "js ''token''"
      default_options example_catalog, THEN conjunct2, THEN conjunct2, THEN conjunct2,
      THEN conjunct2, rule_format, OF c]
  from w2 have n: "\<And>f. f \<in> set (vulnerabilities ?r) \<Longrightarrow> ai_analysis f = None"
    by (rule conjunct1 [THEN bspec])
  from l obtain f1 f2 where v: "vulnerabilities ?r = [f1, f2]"
    by (cases "vulnerabilities ?r"; simp; cases "tl (vulnerabilities ?r)"; simp)
  from n [of f1] n [of f2] have m: "map ai_analysis (vulnerabilities ?r) = [None, None]"
    by (simp add: v)
  from w2 [THEN conjunct2] d e q have s: "success ?r" by simp
  from w1 a b have f: "found (promise_all configured_target True Map.empty [Task 0 (js ''user_secrets'') Probing]
        \<lparr> found = [], trace = [], pending = [] \<rparr>)
      = [make_finding (js ''user_secrets'') (map fst secrets_row) secrets_row
           (rls_flag Map.empty (js ''user_secrets'')) None]"
    by simp
  show ?thesis
    using a b f c m d e q s by (intro conjI)
qed




section \<open>The claims about the token manager\<close>

text \<open>
  C4: for a user with exactly one stored credential. When its expiry is more than five
  minutes after the current time, \<open>getValidAccessToken\<close> returns what \<open>decrypt\<close> gives
  for the stored access token and leaves the state as it is, so no request goes to the
  token endpoint. Otherwise its result and state are those of \<open>refreshAccessToken\<close>
  (with the new access token as the value), and when the refresh token of the record
  decrypts, exactly that token is posted to the token endpoint.
\<close>

theorem valid_token_returned_without_refresh:
  assumes "filter (\<lambda>r. user_id r = userId \<and> provider r = js ''supabase'') (integrations w)
             = [integration]"
  shows "(clock w + 5 * 60 * 1000 < token_expires_at integration \<longrightarrow>
            getValidAccessToken P userId w
              = (decrypt (cipher P) (ENCRYPTION_KEY P) (sealed_access_token integration), w)
            \<and> token_requests (snd (getValidAccessToken P userId w)) = token_requests w)
       \<and> (token_expires_at integration \<le> clock w + 5 * 60 * 1000 \<longrightarrow>
            fst (getValidAccessToken P userId w)
              = map_sum id access_token (fst (refreshAccessToken P (integration_id integration) w))
            \<and> snd (getValidAccessToken P userId w)
              = snd (refreshAccessToken P (integration_id integration) w)
            \<and> (filter (\<lambda>r. integration_id r = integration_id integration) (integrations w)
                  = [integration]
                \<and> decrypt (cipher P) (ENCRYPTION_KEY P) (sealed_refresh_token integration)
                  = Inr refreshToken \<longrightarrow>
                token_requests (snd (getValidAccessToken P userId w))
                  = token_requests w @ [refreshToken]))"
proof (intro conjI impI)
  assume "clock w + 5 * 60 * 1000 < token_expires_at integration"
  with assms show "getValidAccessToken P userId w
      = (decrypt (cipher P) (ENCRYPTION_KEY P) (sealed_access_token integration), w)"
    by (simp add: getValidAccessToken_def single_def)
  then show "token_requests (snd (getValidAccessToken P userId w)) = token_requests w"
    by simp
next
  assume e: "token_expires_at integration \<le> clock w + 5 * 60 * 1000"
  with assms show r1: "fst (getValidAccessToken P userId w)
      = map_sum id access_token (fst (refreshAccessToken P (integration_id integration) w))"
    by (simp add: getValidAccessToken_def single_def split: prod.splits sum.splits)
  from e assms show r2: "snd (getValidAccessToken P userId w)
      = snd (refreshAccessToken P (integration_id integration) w)"
    by (simp add: getValidAccessToken_def single_def split: prod.splits sum.splits)
  assume "filter (\<lambda>r. integration_id r = integration_id integration) (integrations w)
            = [integration]
          \<and> decrypt (cipher P) (ENCRYPTION_KEY P) (sealed_refresh_token integration)
            = Inr refreshToken"
  then show "token_requests (snd (getValidAccessToken P userId w))
      = token_requests w @ [refreshToken]"
    using refresh_requests [of "integration_id integration" w integration P refreshToken] r2
    by simp
qed

theorem valid_token_returned_without_refresh_witness:
  "filter (\<lambda>r. user_id r = js ''user-1'' \<and> provider r = js ''supabase'')
       (integrations (example_world 1000000 0)) = [example_row 1000000]
   \<and> clock (example_world 1000000 0) + 5 * 60 * 1000 < token_expires_at (example_row 1000000)
   \<and> getValidAccessToken (example_platform endpoint_grants) (js ''user-1'') (example_world 1000000 0)
       = (Inr (js ''access-1''), example_world 1000000 0)
   \<and> filter (\<lambda>r. user_id r = js ''user-1'' \<and> provider r = js ''supabase'')
       (integrations (example_world 300000 0)) = [example_row 300000]
   \<and> token_expires_at (example_row 300000) \<le> clock (example_world 300000 0) + 5 * 60 * 1000
   \<and> filter (\<lambda>r. integration_id r = integration_id (example_row 300000))
       (integrations (example_world 300000 0)) = [example_row 300000]
   \<and> token_requests (snd (getValidAccessToken (example_platform endpoint_grants) (js ''user-1'')
         (example_world 300000 0))) = [js ''refresh-1'']"
proof -
  have f: "filter (\<lambda>r. user_id r = js ''user-1'' \<and> provider r = js ''supabase'')
       (integrations (example_world e 0)) = [example_row e]" for e
    by (simp add: example_world_def example_row_def)
  have g: "filter (\<lambda>r. integration_id r = integration_id (example_row e))
       (integrations (example_world e 0)) = [example_row e]" for e
    by (simp add: example_world_def)
  have a: "clock (example_world 1000000 0) + 5 * 60 * 1000 < token_expires_at (example_row 1000000)"
    and b: "token_expires_at (example_row 300000) \<le> clock (example_world 300000 0) + 5 * 60 * 1000"
    by (simp_all add: example_world_def example_row_def)
  have d1: "decrypt (cipher (example_platform endpoint_grants))
        (ENCRYPTION_KEY (example_platform endpoint_grants))
        (sealed_access_token (example_row 1000000)) = Inr (js ''access-1'')"
    and d2: "decrypt (cipher (example_platform endpoint_grants))
        (ENCRYPTION_KEY (example_platform endpoint_grants))
        (sealed_refresh_token (example_row 300000)) = Inr (js ''refresh-1'')"
    by (simp_all add: example_platform_def example_row_def example_tokens_open)
  have t: "token_requests (example_world 300000 0) = []"
    by (simp add: example_world_def)
  from valid_token_returned_without_refresh [OF f [of 1000000],
      of "example_platform endpoint_grants" "js ''refresh-1''"] a d1
  have x: "getValidAccessToken (example_platform endpoint_grants) (js ''user-1'') (example_world 1000000 0)
       = (Inr (js ''access-1''), example_world 1000000 0)"
    by simp
  note refresh = valid_token_returned_without_refresh [OF f [of 300000],
      of "example_platform endpoint_grants" "js ''refresh-1''", THEN conjunct2, rule_format, OF b,
      THEN conjunct2, THEN conjunct2, rule_format, OF conjI [OF g [of 300000] d2]]
  have y: "token_requests (snd (getValidAccessToken (example_platform endpoint_grants) (js ''user-1'')
         (example_world 300000 0))) = [js ''refresh-1'']"
    by (simp only: refresh t append_Nil)
  from f [of 1000000] a x f [of 300000] b g [of 300000] y show ?thesis
    by (intro conjI)
qed

text \<open>
  C5, as stated: whenever the token endpoint answers a refresh with a response that is
  not OK, the stored record is deleted and is never retained. \<open>refreshAccessToken\<close>
  sends the delete and does not look at the answer of the database: when the database
  refuses the delete, the error that asks to reconnect is thrown all the same, and the
  record is still in the table.
\<close>

theorem refused_delete_keeps_record:
  "token_endpoint ((example_platform endpoint_rejects)\<lparr> write_error := database_down \<rparr>)
       (js ''refresh-1'')
     = Resolved (Response False 400 (Inr (js ''invalid_grant'')) (Inl NonError))
   \<and> fst (refreshAccessToken ((example_platform endpoint_rejects)\<lparr> write_error := database_down \<rparr>)
          (js ''int-1'') (example_world 0 0))
     = Inl (Error (js ''Token refresh failed. Please reconnect your Supabase account.''))
   \<and> integrations (snd (refreshAccessToken
          ((example_platform endpoint_rejects)\<lparr> write_error := database_down \<rparr>)
          (js ''int-1'') (example_world 0 0)))
     = integrations (example_world 0 0)
   \<and> map integration_id (integrations (example_world 0 0)) = [js ''int-1'']"
proof -
  let ?P = "(example_platform endpoint_rejects)\<lparr> write_error := database_down \<rparr>"
  have d: "decrypt (cipher ?P) (ENCRYPTION_KEY ?P) (sealed_refresh_token (example_row 0))
      = Inr (js ''refresh-1'')"
    by (simp add: example_platform_def example_row_def example_tokens_open)
  have e: "token_endpoint ?P (js ''refresh-1'')
      = Resolved (Response False 400 (Inr (js ''invalid_grant'')) (Inl NonError))"
    by (simp add: example_platform_def endpoint_rejects_def)
  have x: "write_error ?P DeleteRow = Some (js ''connection refused'')"
    by (simp add: database_down_def)
  have f: "filter (\<lambda>r. integration_id r = js ''int-1'') (integrations (example_world 0 0))
      = [example_row 0]"
    by (simp add: example_world_def example_row_def)
  have o: "\<not> ok (Response False 400 (Inr (js ''invalid_grant'')) (Inl NonError) :: TokenResponse response)"
    by simp
  have "refreshAccessToken ?P (js ''int-1'') (example_world 0 0)
      = (Inl (Error (js ''Token refresh failed. Please reconnect your Supabase account.'')),
         (example_world 0 0)\<lparr> token_requests := token_requests (example_world 0 0) @ [js ''refresh-1''] \<rparr>)"
    by (simp only: refresh_answered [OF f d e] o x)
       simp
  with e show ?thesis
    by (simp add: example_world_def example_row_def)
qed

text \<open>
  C5, amended: for a record that is found by its (non-empty) id, whose refresh token
  decrypts, and a token endpoint that answers. On a response that is not OK and whose
  body can be read, \<open>refreshAccessToken\<close> throws the error that asks to reconnect; the
  table is left without any row of that id, its other rows unchanged, when the
  database carries out the delete, and is left as it was when the database refuses
  it. When the body of that response cannot be read, the error of the read is thrown
  and the table is left as it was. \<open>refreshAccessToken\<close> returns the new tokens exactly
  when the response is OK, its body is a token response, both tokens are non-empty,
  the current time plus \<open>expires_in\<close> seconds is an instant that \<open>Date\<close> can hold, and
  the database accepts the update; the table is then the old one with, in the row of
  that id, the two newly sealed tokens, that expiry, and the time of the update, all
  set in one step. When it throws after a response that is OK, the table is left as
  it was.
\<close>

theorem rejected_refresh_deletes_record:
  assumes "filter (\<lambda>r. integration_id r = integrationId) (integrations w) = [integration]"
    and "decrypt (cipher P) (ENCRYPTION_KEY P) (sealed_refresh_token integration) = Inr refreshToken"
    and "token_endpoint P refreshToken = Resolved response"
    and "integrationId \<noteq> []"
  shows "(\<not> ok response \<and> body_text response = Inr errorText \<longrightarrow>
            fst (refreshAccessToken P integrationId w)
              = Inl (Error (js ''Token refresh failed. Please reconnect your Supabase account.''))
            \<and> (write_error P DeleteRow = None \<longrightarrow>
                  integrations (snd (refreshAccessToken P integrationId w))
                    = filter (\<lambda>r. integration_id r \<noteq> integrationId) (integrations w)
                  \<and> (\<forall>r \<in> set (integrations (snd (refreshAccessToken P integrationId w))).
                        integration_id r \<noteq> integrationId))
            \<and> (write_error P DeleteRow \<noteq> None \<longrightarrow>
                  integrations (snd (refreshAccessToken P integrationId w)) = integrations w))
       \<and> (\<not> ok response \<and> body_text response = Inl e \<longrightarrow>
            fst (refreshAccessToken P integrationId w) = Inl e
            \<and> integrations (snd (refreshAccessToken P integrationId w)) = integrations w)
       \<and> (fst (refreshAccessToken P integrationId w) = Inr tokens \<longleftrightarrow>
            ok response \<and> body_json response = Inr tokens
            \<and> access_token tokens \<noteq> [] \<and> refresh_token tokens \<noteq> []
            \<and> (\<exists>s. expires_in tokens = Some s \<and> \<bar>clock w + s * 1000\<bar> \<le> 8640000000000000)
            \<and> write_error P UpdateRow = None)
       \<and> (fst (refreshAccessToken P integrationId w) = Inr tokens \<longrightarrow>
            (\<exists>sealedAccess sealedRefresh s.
               expires_in tokens = Some s
               \<and> encrypt (cipher P) (ENCRYPTION_KEY P) (entropy w) (access_token tokens)
                 = Inr sealedAccess
               \<and> encrypt (cipher P) (ENCRYPTION_KEY P) (\<lambda>i. entropy w (i + 16))
                   (refresh_token tokens) = Inr sealedRefresh
               \<and> integrations (snd (refreshAccessToken P integrationId w))
                   = map (\<lambda>r. if integration_id r = integrationId
                               then r\<lparr> sealed_access_token := sealedAccess,
                                      sealed_refresh_token := sealedRefresh,
                                      token_expires_at := clock w + s * 1000,
                                      updated_at := clock w \<rparr>
                               else r) (integrations w)))
       \<and> (ok response \<and> isl (fst (refreshAccessToken P integrationId w)) \<longrightarrow>
            integrations (snd (refreshAccessToken P integrationId w)) = integrations w)"
proof -
  let ?w1 = "w\<lparr> token_requests := token_requests w @ [refreshToken] \<rparr>"
  let ?reconnect = "Error (js ''Token refresh failed. Please reconnect your Supabase account.'')"
  from decrypt_key [OF assms(2)] obtain key where
    k: "getEncryptionKey (ENCRYPTION_KEY P) = Inr key" "length key = KEY_LENGTH"
    by blast
  note unfold = refresh_answered [OF assms(1-3)]
  have a: "\<not> ok response \<and> body_text response = Inr errorText \<longrightarrow>
            fst (refreshAccessToken P integrationId w) = Inl ?reconnect
            \<and> (write_error P DeleteRow = None \<longrightarrow>
                  integrations (snd (refreshAccessToken P integrationId w))
                    = filter (\<lambda>r. integration_id r \<noteq> integrationId) (integrations w)
                  \<and> (\<forall>r \<in> set (integrations (snd (refreshAccessToken P integrationId w))).
                        integration_id r \<noteq> integrationId))
            \<and> (write_error P DeleteRow \<noteq> None \<longrightarrow>
                  integrations (snd (refreshAccessToken P integrationId w)) = integrations w)"
    by (cases "write_error P DeleteRow") (simp_all add: unfold)
  have a': "\<not> ok response \<and> body_text response = Inl e \<longrightarrow>
            fst (refreshAccessToken P integrationId w) = Inl e
            \<and> integrations (snd (refreshAccessToken P integrationId w)) = integrations w"
    by (simp add: unfold)
  have b: "fst (refreshAccessToken P integrationId w) = Inr tokens \<longleftrightarrow>
            ok response \<and> body_json response = Inr tokens
            \<and> access_token tokens \<noteq> [] \<and> refresh_token tokens \<noteq> []
            \<and> (\<exists>s. expires_in tokens = Some s \<and> \<bar>clock w + s * 1000\<bar> \<le> 8640000000000000)
            \<and> write_error P UpdateRow = None"
  proof
    assume r: "fst (refreshAccessToken P integrationId w) = Inr tokens"
    then have o: "ok response"
      by (auto simp: unfold split: if_splits sum.splits)
    with r have j: "body_json response = Inr tokens"
      by (auto simp: unfold split: sum.splits prod.splits)
    with r o have "fst (storeTokens P (user_id integration) tokens (Some integrationId) ?w1) = Inr ()"
      by (auto simp: unfold split: sum.splits prod.splits)
    from storeTokens_success [OF this assms(4)]
    have "access_token tokens \<noteq> [] \<and> refresh_token tokens \<noteq> []
        \<and> (\<exists>s. expires_in tokens = Some s \<and> \<bar>clock w + s * 1000\<bar> \<le> 8640000000000000)
        \<and> write_error P UpdateRow = None"
      by simp
    with o j show "ok response \<and> body_json response = Inr tokens
            \<and> access_token tokens \<noteq> [] \<and> refresh_token tokens \<noteq> []
            \<and> (\<exists>s. expires_in tokens = Some s \<and> \<bar>clock w + s * 1000\<bar> \<le> 8640000000000000)
            \<and> write_error P UpdateRow = None"
      by simp
  next
    assume h: "ok response \<and> body_json response = Inr tokens
            \<and> access_token tokens \<noteq> [] \<and> refresh_token tokens \<noteq> []
            \<and> (\<exists>s. expires_in tokens = Some s \<and> \<bar>clock w + s * 1000\<bar> \<le> 8640000000000000)
            \<and> write_error P UpdateRow = None"
    then obtain s where s: "expires_in tokens = Some s" "\<bar>clock ?w1 + s * 1000\<bar> \<le> 8640000000000000"
      by auto
    from h have t: "access_token tokens \<noteq> []" "refresh_token tokens \<noteq> []"
      and d: "write_error P UpdateRow = None"
      by simp_all
    from storeTokens_update [OF k t assms(4) s d, where userId = "user_id integration"]
    have "fst (storeTokens P (user_id integration) tokens (Some integrationId) ?w1) = Inr ()"
      by blast
    with h show "fst (refreshAccessToken P integrationId w) = Inr tokens"
      by (auto simp: unfold split: sum.splits prod.splits)
  qed
  have c: "\<exists>sealedAccess sealedRefresh s.
               expires_in tokens = Some s
               \<and> encrypt (cipher P) (ENCRYPTION_KEY P) (entropy w) (access_token tokens)
                 = Inr sealedAccess
               \<and> encrypt (cipher P) (ENCRYPTION_KEY P) (\<lambda>i. entropy w (i + 16))
                   (refresh_token tokens) = Inr sealedRefresh
               \<and> integrations (snd (refreshAccessToken P integrationId w))
                   = map (\<lambda>r. if integration_id r = integrationId
                               then r\<lparr> sealed_access_token := sealedAccess,
                                      sealed_refresh_token := sealedRefresh,
                                      token_expires_at := clock w + s * 1000,
                                      updated_at := clock w \<rparr>
                               else r) (integrations w)"
    if r: "fst (refreshAccessToken P integrationId w) = Inr tokens"
  proof -
    from r b have h: "ok response" "body_json response = Inr tokens"
      "access_token tokens \<noteq> []" "refresh_token tokens \<noteq> []"
      and d: "write_error P UpdateRow = None"
      by simp_all
    from r b obtain s where s: "expires_in tokens = Some s"
      "\<bar>clock ?w1 + s * 1000\<bar> \<le> 8640000000000000"
      by auto
    from storeTokens_update [OF k h(3,4) assms(4) s d, where userId = "user_id integration"]
    obtain sa sr where
      e: "encrypt (cipher P) (ENCRYPTION_KEY P) (entropy w) (access_token tokens) = Inr sa"
        "encrypt (cipher P) (ENCRYPTION_KEY P) (\<lambda>i. entropy w (i + IV_LENGTH)) (refresh_token tokens)
          = Inr sr"
        "fst (storeTokens P (user_id integration) tokens (Some integrationId) ?w1) = Inr ()"
        "integrations (snd (storeTokens P (user_id integration) tokens (Some integrationId) ?w1))
          = map (\<lambda>r. if integration_id r = integrationId
                      then r\<lparr> sealed_access_token := sa, sealed_refresh_token := sr,
                             token_expires_at := clock w + s * 1000,
                             updated_at := clock w \<rparr>
                      else r) (integrations w)"
      by auto
    from e(3,4) h(1,2) have "integrations (snd (refreshAccessToken P integrationId w))
          = map (\<lambda>r. if integration_id r = integrationId
                      then r\<lparr> sealed_access_token := sa, sealed_refresh_token := sr,
                             token_expires_at := clock w + s * 1000,
                             updated_at := clock w \<rparr>
                      else r) (integrations w)"
      by (auto simp: unfold split: sum.splits prod.splits)
    with e(1,2) s(1) show ?thesis
      by (auto simp: IV_LENGTH_def)
  qed
  have d: "integrations (snd (refreshAccessToken P integrationId w)) = integrations w"
    if o: "ok response" and l: "isl (fst (refreshAccessToken P integrationId w))"
  proof (cases "body_json response")
    case (Inl e)
    with o show ?thesis by (simp add: unfold)
  next
    case (Inr tk)
    obtain x w2 where x: "storeTokens P (user_id integration) tk (Some integrationId) ?w1 = (x, w2)"
      by (cases "storeTokens P (user_id integration) tk (Some integrationId) ?w1")
    with l o Inr obtain e where e: "x = Inl e"
      by (cases x) (simp_all add: unfold)
    from storeTokens_failure [of P "user_id integration" tk "Some integrationId" ?w1 e] x e
    have "integrations w2 = integrations w"
      by simp
    with o Inr x e show ?thesis
      by (simp add: unfold)
  qed
  from a a' b c d show ?thesis by blast
qed

theorem rejected_refresh_deletes_record_witness:
  "filter (\<lambda>r. integration_id r = js ''int-1'') (integrations (example_world 0 0)) = [example_row 0]
   \<and> decrypt (cipher (example_platform endpoint_rejects)) (ENCRYPTION_KEY (example_platform endpoint_rejects))
        (sealed_refresh_token (example_row 0)) = Inr (js ''refresh-1'')
   \<and> token_endpoint (example_platform endpoint_rejects) (js ''refresh-1'')
        = Resolved (Response False 400 (Inr (js ''invalid_grant'')) (Inl NonError))
   \<and> js ''int-1'' \<noteq> []
   \<and> \<not> ok (Response False 400 (Inr (js ''invalid_grant'')) (Inl NonError) :: TokenResponse response)
   \<and> write_error (example_platform endpoint_rejects) DeleteRow = None
   \<and> fst (refreshAccessToken (example_platform endpoint_rejects) (js ''int-1'') (example_world 0 0))
        = Inl (Error (js ''Token refresh failed. Please reconnect your Supabase account.''))
   \<and> integrations (snd (refreshAccessToken (example_platform endpoint_rejects) (js ''int-1'')
        (example_world 0 0))) = []
   \<and> token_endpoint (example_platform endpoint_grants) (js ''refresh-1'')
        = Resolved (Response True 200 (Inr []) (Inr new_tokens))
   \<and> expires_in new_tokens = Some 3600
   \<and> \<bar>clock (example_world 0 0) + 3600 * 1000\<bar> \<le> 8640000000000000
   \<and> write_error (example_platform endpoint_grants) UpdateRow = None
   \<and> fst (refreshAccessToken (example_platform endpoint_grants) (js ''int-1'') (example_world 0 0))
        = Inr new_tokens
   \<and> map token_expires_at (integrations (snd (refreshAccessToken (example_platform endpoint_grants)
        (js ''int-1'') (example_world 0 0)))) = [3600000]"
proof -
  have f: "filter (\<lambda>r. integration_id r = js ''int-1'') (integrations (example_world 0 0))
      = [example_row 0]"
    by (simp add: example_world_def example_row_def)
  have d: "decrypt (cipher (example_platform e)) (ENCRYPTION_KEY (example_platform e))
        (sealed_refresh_token (example_row 0)) = Inr (js ''refresh-1'')" for e
    by (simp add: example_platform_def example_row_def example_tokens_open)
  have r: "token_endpoint (example_platform endpoint_rejects) (js ''refresh-1'')
        = Resolved (Response False 400 (Inr (js ''invalid_grant'')) (Inl NonError))"
    and g: "token_endpoint (example_platform endpoint_grants) (js ''refresh-1'')
        = Resolved (Response True 200 (Inr []) (Inr new_tokens))"
    by (simp_all add: example_platform_def endpoint_rejects_def endpoint_grants_def)
  have i: "js ''int-1'' \<noteq> []"
    by (simp add: js_def)
  have n: "access_token new_tokens \<noteq> []" "refresh_token new_tokens \<noteq> []"
    "expires_in new_tokens = Some 3600"
    by (simp_all add: new_tokens_def js_def)
  have w: "integrations (example_world 0 0) = [example_row 0]" "clock (example_world 0 0) = 0"
    "integration_id (example_row 0) = js ''int-1''"
    by (simp_all add: example_world_def example_row_def)
  have u: "write_error (example_platform e) s = None" for e s
    by (simp add: example_platform_def database_up_def)
  have c: "\<bar>clock (example_world 0 0) + 3600 * 1000\<bar> \<le> 8640000000000000"
    by (simp add: w)
  note rej = rejected_refresh_deletes_record [OF f d r i, of "js ''invalid_grant''" NonError new_tokens]
  note gra = rejected_refresh_deletes_record [OF f d g i, of "[]" NonError new_tokens]
  from rej w u have x: "fst (refreshAccessToken (example_platform endpoint_rejects) (js ''int-1'') (example_world 0 0))
        = Inl (Error (js ''Token refresh failed. Please reconnect your Supabase account.''))"
    and y: "integrations (snd (refreshAccessToken (example_platform endpoint_rejects) (js ''int-1'')
        (example_world 0 0))) = []"
    by simp_all
  from gra n w u have z: "fst (refreshAccessToken (example_platform endpoint_grants) (js ''int-1'') (example_world 0 0))
        = Inr new_tokens"
    by simp
  with gra obtain sa sr s where "expires_in new_tokens = Some s"
    "integrations (snd (refreshAccessToken (example_platform endpoint_grants)
        (js ''int-1'') (example_world 0 0)))
      = map (\<lambda>r. if integration_id r = js ''int-1''
                  then r\<lparr> sealed_access_token := sa, sealed_refresh_token := sr,
                         token_expires_at := clock (example_world 0 0) + s * 1000,
                         updated_at := clock (example_world 0 0) \<rparr>
                  else r) (integrations (example_world 0 0))"
    by blast
  with w n have v: "map token_expires_at (integrations (snd (refreshAccessToken (example_platform endpoint_grants)
        (js ''int-1'') (example_world 0 0)))) = [3600000]"
    by simp
  have o: "\<not> ok (Response False 400 (Inr (js ''invalid_grant'')) (Inl NonError) :: TokenResponse response)"
    by simp
  from f d [of endpoint_rejects] r i o u [of endpoint_rejects DeleteRow] x y g n(3) c
    u [of endpoint_grants UpdateRow] z v
  show ?thesis
    by (intro conjI)
qed

end
